theory Spec2Isabelle
  imports Complex_Main "HOL-Library.Word" "HOL-Library.List_Lexorder" "HOL-Library.Multiset"
begin

text \<open>
  The rebuild coordination of serviette: \<^verbatim>\<open>compare\<close>, \<^verbatim>\<open>equalsState\<close>, the class
  \<^verbatim>\<open>LockQueue\<close> and the class \<^verbatim>\<open>Rebuilder\<close> with \<^verbatim>\<open>rebuildIfNecessary\<close>, \<^verbatim>\<open>scan\<close>,
  \<^verbatim>\<open>gatherState\<close> and \<^verbatim>\<open>rebuild\<close>. The program is a chain of callbacks run by the
  event loop of Node. Each closure of the source is a record of the variables it
  captures; each callback is a function from the state before to the state
  after; the environment (requests, the file system, the child process, the
  scheduler) is a sequence of events, in any order.
\<close>

section \<open>Data model\<close>

text \<open>
  A JavaScript string is a sequence of 16-bit code units, and \<^verbatim>\<open><\<close> on two
  strings compares them code unit by code unit, a proper prefix being smaller.
  That is the lexicographic order of lists over the order of 16-bit words.
  \<open>js\<close> writes a string of the model from a literal.
\<close>

type_synonym js_string = "16 word list"

definition js :: "string \<Rightarrow> js_string" where
  "js s = map of_char s"

text \<open>
  The entries of a disk state are the object literals
  \<^verbatim>\<open>{ path: path, mtime: stat.mtimeMs }\<close>. \<^verbatim>\<open>mtimeMs\<close> is a finite number
  (never NaN), so \<^verbatim>\<open>!=\<close> on two of them is inequality of the numbers.
\<close>

record file_entry =
  path :: js_string
  mtime :: real

type_synonym disk_state = "file_entry list"

datatype js_exception = TypeError

section \<open>compare and equalsState\<close>

text \<open>
  \<^verbatim>\<open>function compare(a, b) { if (a < b) return -1; else if (b < a) return 1; else return 0; }\<close>
\<close>

definition compare :: "js_string \<Rightarrow> js_string \<Rightarrow> int" where
  "compare a b = (if a < b then - 1 else if b < a then 1 else 0)"

text \<open>
  The loop of \<^verbatim>\<open>equalsState\<close>, from index \<open>i\<close>. It is entered only after the
  two lengths were found equal, so both reads are in range.
\<close>

function equalsState_loop :: "nat \<Rightarrow> disk_state \<Rightarrow> disk_state \<Rightarrow> bool" where
  "equalsState_loop i new_state previous_state =
     (if i < length new_state then
        (if path (new_state ! i) \<noteq> path (previous_state ! i) then False
         else if mtime (new_state ! i) \<noteq> mtime (previous_state ! i) then False
         else equalsState_loop (i + 1) new_state previous_state)
      else True)"
  by pat_completeness auto
termination
  by (relation "measure (\<lambda>(i, new_state, previous_state). length new_state - i)") auto

text \<open>
  \<^verbatim>\<open>equalsState(new_state, previous_state)\<close>. An argument is \<open>None\<close> when it is
  \<^verbatim>\<open>null\<close> or \<^verbatim>\<open>undefined\<close>; an array, even an empty one, is truthy. With both
  arguments \<^verbatim>\<open>null\<close> the first two tests pass and \<^verbatim>\<open>new_state.length\<close> throws.
\<close>

fun equalsState :: "disk_state option \<Rightarrow> disk_state option \<Rightarrow> js_exception + bool" where
  "equalsState (Some new_state) None = Inr False"
| "equalsState None (Some previous_state) = Inr False"
| "equalsState None None = Inl TypeError"
| "equalsState (Some new_state) (Some previous_state) =
     (if length new_state \<noteq> length previous_state then Inr False
      else Inr (equalsState_loop 0 new_state previous_state))"

section \<open>Array.prototype.sort\<close>

text \<open>
  \<^verbatim>\<open>results.sort((a, b) => compare(a.path, b.path))\<close> sorts the array in place with
  the platform's sort, driven by the comparison function: an element goes before
  another when the function returns a negative number for the pair, and elements
  the function calls equal keep their order. The model is the stable insertion
  sort with that behaviour.
\<close>

fun insert_by :: "('a \<Rightarrow> 'a \<Rightarrow> int) \<Rightarrow> 'a \<Rightarrow> 'a list \<Rightarrow> 'a list" where
  "insert_by cmp x [] = [x]"
| "insert_by cmp x (y # ys) =
     (if cmp x y \<le> 0 then x # y # ys else y # insert_by cmp x ys)"

definition array_sort :: "('a \<Rightarrow> 'a \<Rightarrow> int) \<Rightarrow> 'a list \<Rightarrow> 'a list" where
  "array_sort cmp xs = foldr (insert_by cmp) xs []"

section \<open>gatherState\<close>

text \<open>
  What \<^verbatim>\<open>fs.stat\<close> and \<^verbatim>\<open>fs.readdir\<close> hand to their callbacks: an \<^verbatim>\<open>Error\<close>
  object, or the \<^verbatim>\<open>Stats\<close> (of which the code reads \<^verbatim>\<open>mtimeMs\<close> and
  \<^verbatim>\<open>isDirectory()\<close>) or the list of names.
\<close>

datatype js_error = Error js_string

record stat =
  mtimeMs :: real
  isDirectory :: bool

text \<open>
  The value a callback receives as \<^verbatim>\<open>err\<close>: \<^verbatim>\<open>null\<close>, an \<^verbatim>\<open>Error\<close> object, or
  (from \<^verbatim>\<open>rebuild\<close>) the output string of the build. \<open>truthy\<close> is the test
  \<^verbatim>\<open>if (err)\<close>: an object is truthy, a string is truthy unless it is empty.
\<close>

datatype err_value = Null | ErrObj js_error | Str js_string

fun truthy :: "err_value \<Rightarrow> bool" where
  "truthy Null = False"
| "truthy (ErrObj e) = True"
| "truthy (Str s) = (s \<noteq> [])"

text \<open>
  The operations in flight and their completions. The file system decides the
  result of each and the order in which they complete.
\<close>

datatype fs_op = Stat js_string | Readdir js_string

datatype fs_event =
    StatDone js_string "js_error + stat"
  | ReaddirDone js_string "js_error + js_string list"

text \<open>
  The closure of one call of \<^verbatim>\<open>gatherState\<close>: the counter \<^verbatim>\<open>expected\<close>, the
  array \<^verbatim>\<open>results\<close>, and the operations of this scan that are in flight. A step
  of the scan returns the new closure and the call of \<^verbatim>\<open>callback(err, results)\<close>
  it made, if any, with the contents of \<^verbatim>\<open>results\<close> at that moment.
\<close>

record gather =
  expected :: int
  results :: disk_state
  pending :: "fs_op list"

type_synonym scan_result = "err_value \<times> disk_state"

definition begin_fn :: "gather \<Rightarrow> gather" where
  "begin_fn g = g\<lparr>expected := expected g + 1\<rparr>"

definition done_fn :: "gather \<Rightarrow> gather \<times> scan_result option" where
  "done_fn g =
     (let g1 = g\<lparr>expected := expected g - 1\<rparr> in
      if expected g1 = 0 then
        (let g2 = g1\<lparr>results := array_sort (\<lambda>a b. compare (path a) (path b)) (results g1)\<rparr>
         in (g2, Some (Null, results g2)))
      else (g1, None))"

definition error :: "js_error \<Rightarrow> gather \<Rightarrow> gather \<times> scan_result option" where
  "error err g =
     (let g1 = g\<lparr>expected := - 1\<rparr> in (g1, Some (ErrObj err, results g1)))"

text \<open>
  \<^verbatim>\<open>walk(path)\<close> counts the unit and starts \<^verbatim>\<open>fs.stat\<close>. \<^verbatim>\<open>path_.join\<close> is the
  platform's; the model takes it as the parameter \<open>join\<close>.
\<close>

definition walk :: "js_string \<Rightarrow> gather \<Rightarrow> gather" where
  "walk p g = (let g1 = begin_fn g in g1\<lparr>pending := pending g1 @ [Stat p]\<rparr>)"

definition stat_cb :: "js_string \<Rightarrow> js_error + stat \<Rightarrow> gather \<Rightarrow> gather \<times> scan_result option" where
  "stat_cb p r g =
     (case r of
        Inl err \<Rightarrow> error err g
      | Inr st \<Rightarrow>
          (let g1 = g\<lparr>results := results g @ [\<lparr>path = p, mtime = mtimeMs st\<rparr>]\<rparr> in
           if isDirectory st then (g1\<lparr>pending := pending g1 @ [Readdir p]\<rparr>, None)
           else done_fn g1))"

definition readdir_cb ::
  "(js_string \<Rightarrow> js_string \<Rightarrow> js_string) \<Rightarrow> js_string \<Rightarrow> js_error + js_string list \<Rightarrow>
   gather \<Rightarrow> gather \<times> scan_result option" where
  "readdir_cb join p r g =
     (case r of
        Inl err \<Rightarrow> error err g
      | Inr files \<Rightarrow> done_fn (foldl (\<lambda>g1 f. walk (join p f) g1) g files))"

text \<open>
  The completion of an operation runs its callback. A completion of an operation
  that is not in flight cannot happen: the step leaves the closure as it is.
\<close>

fun fs_step ::
  "(js_string \<Rightarrow> js_string \<Rightarrow> js_string) \<Rightarrow> fs_event \<Rightarrow> gather \<Rightarrow> gather \<times> scan_result option" where
  "fs_step join (StatDone p r) g =
     (if Stat p \<in> set (pending g)
      then stat_cb p r (g\<lparr>pending := remove1 (Stat p) (pending g)\<rparr>)
      else (g, None))"
| "fs_step join (ReaddirDone p r) g =
     (if Readdir p \<in> set (pending g)
      then readdir_cb join p r (g\<lparr>pending := remove1 (Readdir p) (pending g)\<rparr>)
      else (g, None))"

definition gatherState :: "js_string \<Rightarrow> gather" where
  "gatherState root_path = walk root_path \<lparr>expected = 0, results = [], pending = []\<rparr>"

text \<open>A scan on its own: the calls of its callback over a sequence of completions.\<close>

fun gather_run ::
  "(js_string \<Rightarrow> js_string \<Rightarrow> js_string) \<Rightarrow> fs_event list \<Rightarrow> gather \<Rightarrow> gather \<times> scan_result list" where
  "gather_run join [] g = (g, [])"
| "gather_run join (e # es) g =
     (case fs_step join e g of
        (g1, c) \<Rightarrow>
          (case gather_run join es g1 of
             (g2, cs) \<Rightarrow> (g2, (case c of None \<Rightarrow> [] | Some x \<Rightarrow> [x]) @ cs)))"

fun is_error_event :: "fs_event \<Rightarrow> bool" where
  "is_error_event (StatDone p r) = (case r of Inl e \<Rightarrow> True | Inr st \<Rightarrow> False)"
| "is_error_event (ReaddirDone p r) = (case r of Inl e \<Rightarrow> True | Inr fs \<Rightarrow> False)"

section \<open>The child process of rebuild\<close>

text \<open>
  The closure of \<^verbatim>\<open>rebuild\<close> once the command runs: \<^verbatim>\<open>output\<close> (here
  \<open>output_text\<close>) and \<^verbatim>\<open>signaled\<close>.
  The events are those the code listens to: data on either stream, \<^verbatim>\<open>error\<close>,
  and \<^verbatim>\<open>exit\<close> with its code (a number or \<^verbatim>\<open>null\<close>) and signal (a string or
  \<^verbatim>\<open>null\<close>). \<^verbatim>\<open>code || signal\<close> is truthy for a code other than 0 and for a
  signal other than the empty string.
\<close>

record child =
  output_text :: js_string
  signaled :: bool

datatype child_event =
    StdoutData js_string
  | StderrData js_string
  | ChildError js_error
  | ChildExit "int option" "js_string option"

definition code_or_signal :: "int option \<Rightarrow> js_string option \<Rightarrow> bool" where
  "code_or_signal code signal =
     ((case code of None \<Rightarrow> False | Some c \<Rightarrow> c \<noteq> 0) \<or>
      (case signal of None \<Rightarrow> False | Some sg \<Rightarrow> sg \<noteq> []))"

fun child_step :: "child_event \<Rightarrow> child \<Rightarrow> child \<times> err_value option" where
  "child_step (StdoutData d) c = (c\<lparr>output_text := output_text c @ d\<rparr>, None)"
| "child_step (StderrData d) c = (c\<lparr>output_text := output_text c @ d\<rparr>, None)"
| "child_step (ChildError err) c =
     (if \<not> signaled c then (c\<lparr>signaled := True\<rparr>, Some (ErrObj err)) else (c, None))"
| "child_step (ChildExit code signal) c =
     (if \<not> signaled c then
        (c\<lparr>signaled := True\<rparr>,
         Some (if code_or_signal code signal then Str (output_text c) else Null))
      else (c, None))"

fun child_run :: "child_event list \<Rightarrow> child \<Rightarrow> child \<times> err_value list" where
  "child_run [] c = (c, [])"
| "child_run (e # es) c =
     (case child_step e c of
        (c1, r) \<Rightarrow>
          (case child_run es c1 of
             (c2, rs) \<Rightarrow> (c2, (case r of None \<Rightarrow> [] | Some x \<Rightarrow> [x]) @ rs)))"

definition spawned :: child where
  "spawned = \<lparr>output_text = [], signaled = False\<rparr>"

text \<open>A chunk of data on standard output, or (flag set) on standard error.\<close>

fun data_event :: "bool \<times> js_string \<Rightarrow> child_event" where
  "data_event (from_stderr, d) = (if from_stderr then StderrData d else StdoutData d)"

section \<open>LockQueue\<close>

text \<open>
  The queue of the lock, and the number of callbacks \<^verbatim>\<open>() => this._dispatch()\<close>
  handed to \<^verbatim>\<open>process.nextTick\<close> that have not run yet. \<^verbatim>\<open>shift\<close> on an empty
  array does nothing. \<^verbatim>\<open>_dispatch\<close> calls the head of the queue with the release
  function; with an empty queue the head is \<^verbatim>\<open>undefined\<close> and the call throws.
\<close>

record 'a LockQueue =
  lock_queue :: "'a list"
  ticks :: nat

definition lq_lock :: "'a \<Rightarrow> 'a LockQueue \<Rightarrow> 'a LockQueue" where
  "lq_lock callback q =
     (let q1 = q\<lparr>lock_queue := lock_queue q @ [callback]\<rparr> in
      if length (lock_queue q1) = 1 then q1\<lparr>ticks := ticks q1 + 1\<rparr> else q1)"

definition lq_unlock :: "'a LockQueue \<Rightarrow> 'a LockQueue" where
  "lq_unlock q =
     (let q1 = q\<lparr>lock_queue := drop 1 (lock_queue q)\<rparr> in
      if length (lock_queue q1) > 0 then q1\<lparr>ticks := ticks q1 + 1\<rparr> else q1)"

definition lq_dispatch :: "'a LockQueue \<Rightarrow> js_exception + 'a" where
  "lq_dispatch q = (case lock_queue q of [] \<Rightarrow> Inl TypeError | item # rest \<Rightarrow> Inr item)"

text \<open>
  The lock on its own, with its clients as events: \<open>Lock a\<close>, the operation
  \<open>a\<close> is handed to \<^verbatim>\<open>lock\<close>; \<open>RunTick\<close>, the scheduler runs a deferred
  dispatch; \<open>Unlock a\<close>, the operation \<open>a\<close> calls the release function.
  \<^verbatim>\<open>unlock\<close> does not look at who calls it: it shifts the queue whoever the
  caller is. The record of what happened lists the operations started and the
  releases, each with the operation that made it.
\<close>

datatype 'a lq_event = Lock 'a | RunTick | Unlock 'a

datatype 'a lq_obs = Started 'a | Released 'a | Failed js_exception

record 'a lq_sys =
  lq :: "'a LockQueue"
  obs :: "'a lq_obs list"

fun lq_step :: "'a lq_event \<Rightarrow> 'a lq_sys \<Rightarrow> 'a lq_sys" where
  "lq_step (Lock callback) s = s\<lparr>lq := lq_lock callback (lq s)\<rparr>"
| "lq_step RunTick s =
     (if ticks (lq s) = 0 then s
      else
        (let s1 = s\<lparr>lq := (lq s)\<lparr>ticks := ticks (lq s) - 1\<rparr>\<rparr> in
         case lq_dispatch (lq s1) of
           Inl e \<Rightarrow> s1\<lparr>obs := obs s1 @ [Failed e]\<rparr>
         | Inr item \<Rightarrow> s1\<lparr>obs := obs s1 @ [Started item]\<rparr>))"
| "lq_step (Unlock a) s = s\<lparr>lq := lq_unlock (lq s), obs := obs s @ [Released a]\<rparr>"

fun lq_run :: "'a lq_event list \<Rightarrow> 'a lq_sys \<Rightarrow> 'a lq_sys" where
  "lq_run [] s = s"
| "lq_run (e # es) s = lq_run es (lq_step e s)"

definition lq_init :: "'a lq_sys" where
  "lq_init = \<lparr>lq = \<lparr>lock_queue = [], ticks = 0\<rparr>, obs = []\<rparr>"

fun started :: "'a lq_obs list \<Rightarrow> 'a list" where
  "started [] = []"
| "started (Started a # os) = a # started os"
| "started (x # os) = started os"

fun released :: "'a lq_obs list \<Rightarrow> nat" where
  "released [] = 0"
| "released (Released a # os) = Suc (released os)"
| "released (x # os) = released os"

fun failures :: "'a lq_obs list \<Rightarrow> nat" where
  "failures [] = 0"
| "failures (Failed e # os) = Suc (failures os)"
| "failures (x # os) = failures os"

fun arrivals :: "'a lq_event list \<Rightarrow> 'a list" where
  "arrivals [] = []"
| "arrivals (Lock a # es) = a # arrivals es"
| "arrivals (e # es) = arrivals es"

text \<open>
  The operations in progress, in the order they were started: an operation is in
  progress from its start to its own release. A release by an operation that is
  not in progress ends no operation.
\<close>

fun progress :: "'a list \<Rightarrow> 'a lq_obs \<Rightarrow> 'a list" where
  "progress ops (Started a) = ops @ [a]"
| "progress ops (Released a) = remove1 a ops"
| "progress ops (Failed e) = ops"

definition in_progress :: "'a lq_obs list \<Rightarrow> 'a list" where
  "in_progress os = foldl progress [] os"

text \<open>
  The contract of the lock, for operations that are told apart (no operation is
  handed to \<^verbatim>\<open>lock\<close> twice): an operation calls the release function only while
  it is in progress, that is, after it was started and at most once.
\<close>

fun well_behaved :: "'a lq_event list \<Rightarrow> 'a lq_sys \<Rightarrow> bool" where
  "well_behaved [] s = True"
| "well_behaved (e # es) s =
     ((case e of
         Unlock a \<Rightarrow> a \<in> set (in_progress (obs s))
       | Lock a \<Rightarrow> True
       | RunTick \<Rightarrow> True) \<and>
      well_behaved es (lq_step e s))"

section \<open>Rebuilder\<close>

text \<open>
  One \<^verbatim>\<open>Rebuilder\<close> and the operations it has in flight. A call of
  \<^verbatim>\<open>rebuildIfNecessary(callback)\<close> is named by a number, which stands for its
  \<^verbatim>\<open>callback\<close>; the lock queue holds these numbers for the closures queued by
  \<^verbatim>\<open>this.lock.lock\<close>. Each call of \<^verbatim>\<open>gatherState\<close> adds a scan to \<open>scans\<close>,
  with the callback it was given (that of \<^verbatim>\<open>scan\<close>, or that of the rescan after
  the build) and the request it works for. \<^verbatim>\<open>this.disk_state = results\<close> stores
  the array of a scan, not a copy: \<open>disk_state\<close> is \<open>None\<close> for the array of the
  constructor and \<open>Some k\<close> for the array of scan \<open>k\<close>. \<open>history\<close> records the
  calls of the release function and of the callbacks, and the processes spawned.
  The status lines printed on the console are not modelled. The program exists
  in two variants; the older one scans \<^verbatim>\<open>"."\<close> and always has the command
  \<^verbatim>\<open>"npm run build"\<close>, without the test \<^verbatim>\<open>!command\<close>: it is the instance with
  that root and that command, for which the test is false.
\<close>

datatype scan_kind = FirstScan | Rescan

datatype action = Unlocked nat | Called nat err_value | Spawned js_string | Thrown js_exception

record rebuilder =
  disk_state :: "nat option"
  lock :: "nat LockQueue"
  rebuild_command :: "js_string option"
  root_path :: js_string
  scans :: "(scan_kind \<times> nat \<times> gather) list"
  children :: "(nat \<times> child) list"
  history :: "action list"

definition new_Rebuilder :: "js_string \<Rightarrow> js_string option \<Rightarrow> rebuilder" where
  "new_Rebuilder root_dir command =
     \<lparr>disk_state = None, lock = \<lparr>lock_queue = [], ticks = 0\<rparr>,
      rebuild_command = command, root_path = root_dir,
      scans = [], children = [], history = []\<rparr>"

definition scan_results :: "nat \<Rightarrow> rebuilder \<Rightarrow> disk_state" where
  "scan_results k s = (if k < length (scans s) then results (snd (snd (scans s ! k))) else [])"

definition disk_state_value :: "rebuilder \<Rightarrow> disk_state" where
  "disk_state_value s = (case disk_state s of None \<Rightarrow> [] | Some k \<Rightarrow> scan_results k s)"

text \<open>\<^verbatim>\<open>unlock(); callback(err);\<close>\<close>

definition unlock_and_callback :: "nat \<Rightarrow> err_value \<Rightarrow> rebuilder \<Rightarrow> rebuilder" where
  "unlock_and_callback r err s =
     s\<lparr>lock := lq_unlock (lock s), history := history s @ [Unlocked r, Called r err]\<rparr>"

definition start_gatherState :: "scan_kind \<Rightarrow> nat \<Rightarrow> rebuilder \<Rightarrow> rebuilder" where
  "start_gatherState kind r s = s\<lparr>scans := scans s @ [(kind, r, gatherState (root_path s))]\<rparr>"

text \<open>The callback of the rescan: \<^verbatim>\<open>if (!err) this.disk_state = results; unlock(); callback(err);\<close>\<close>

definition rescan_cb :: "nat \<Rightarrow> nat \<Rightarrow> err_value \<Rightarrow> rebuilder \<Rightarrow> rebuilder" where
  "rescan_cb r k err s =
     unlock_and_callback r err (if \<not> truthy err then s\<lparr>disk_state := Some k\<rparr> else s)"

text \<open>The callback of \<^verbatim>\<open>this.rebuild\<close>.\<close>

definition rebuild_cb :: "nat \<Rightarrow> err_value \<Rightarrow> rebuilder \<Rightarrow> rebuilder" where
  "rebuild_cb r err s =
     (if truthy err then unlock_and_callback r err s else start_gatherState Rescan r s)"

text \<open>
  \<^verbatim>\<open>rebuild(callback)\<close>: \<^verbatim>\<open>!command\<close> holds for \<^verbatim>\<open>null\<close> and for the empty
  string, and then the callback is called at once; otherwise the command is
  spawned and the callback waits for the events of the child.
\<close>

definition rebuild :: "nat \<Rightarrow> rebuilder \<Rightarrow> rebuilder" where
  "rebuild r s =
     (case rebuild_command s of
        None \<Rightarrow> rebuild_cb r Null s
      | Some command \<Rightarrow>
          if command = [] then rebuild_cb r Null s
          else s\<lparr>children := children s @ [(r, spawned)],
                 history := history s @ [Spawned command]\<rparr>)"

text \<open>
  The callback of \<^verbatim>\<open>this.scan\<close>, for the results of scan \<open>k\<close>:
  \<^verbatim>\<open>if (err || equalsState(results, this.disk_state)) { unlock(); callback(err); } else this.rebuild(...)\<close>
\<close>

definition scan_cb :: "nat \<Rightarrow> nat \<Rightarrow> err_value \<Rightarrow> rebuilder \<Rightarrow> rebuilder" where
  "scan_cb r k err s =
     (if truthy err then unlock_and_callback r err s
      else
        (case equalsState (Some (scan_results k s)) (Some (disk_state_value s)) of
           Inl e \<Rightarrow> s\<lparr>history := history s @ [Thrown e]\<rparr>
         | Inr eq \<Rightarrow> if eq then unlock_and_callback r err s else rebuild r s))"

definition scan :: "nat \<Rightarrow> rebuilder \<Rightarrow> rebuilder" where
  "scan r s = start_gatherState FirstScan r s"

definition rebuildIfNecessary :: "nat \<Rightarrow> rebuilder \<Rightarrow> rebuilder" where
  "rebuildIfNecessary r s = s\<lparr>lock := lq_lock r (lock s)\<rparr>"

text \<open>
  The events of the program: a request calls \<^verbatim>\<open>rebuildIfNecessary\<close>; a tick runs
  one deferred \<^verbatim>\<open>_dispatch\<close>, which calls the head of the lock queue, that is
  \<^verbatim>\<open>this.scan\<close>; an operation of scan \<open>k\<close> completes; child \<open>c\<close> emits an event.
  Node runs a deferred dispatch as soon as the running callback returns; here a
  tick may come at any later point, which includes that schedule. The callbacks
  of a scan receive its array \<^verbatim>\<open>results\<close>, which they read from the state as
  the array of scan \<open>k\<close>. An exception thrown by a callback is recorded in the
  history.
\<close>

datatype event = Request nat | Tick | Fs nat fs_event | Child nat child_event

fun step :: "(js_string \<Rightarrow> js_string \<Rightarrow> js_string) \<Rightarrow> event \<Rightarrow> rebuilder \<Rightarrow> rebuilder" where
  "step join (Request r) s = rebuildIfNecessary r s"
| "step join Tick s =
     (if ticks (lock s) = 0 then s
      else
        (let s1 = s\<lparr>lock := (lock s)\<lparr>ticks := ticks (lock s) - 1\<rparr>\<rparr> in
         case lq_dispatch (lock s1) of
           Inl e \<Rightarrow> s1\<lparr>history := history s1 @ [Thrown e]\<rparr>
         | Inr r \<Rightarrow> scan r s1))"
| "step join (Fs k e) s =
     (if k < length (scans s) then
        (case scans s ! k of
           (kind, r, g) \<Rightarrow>
             (case fs_step join e g of
                (g1, c) \<Rightarrow>
                  (let s1 = s\<lparr>scans := (scans s)[k := (kind, r, g1)]\<rparr> in
                   case c of
                     None \<Rightarrow> s1
                   | Some (err, rs) \<Rightarrow>
                       (case kind of
                          FirstScan \<Rightarrow> scan_cb r k err s1
                        | Rescan \<Rightarrow> rescan_cb r k err s1))))
      else s)"
| "step join (Child c e) s =
     (if c < length (children s) then
        (case children s ! c of
           (r, ch) \<Rightarrow>
             (case child_step e ch of
                (ch1, cb) \<Rightarrow>
                  (let s1 = s\<lparr>children := (children s)[c := (r, ch1)]\<rparr> in
                   case cb of
                     None \<Rightarrow> s1
                   | Some err \<Rightarrow> rebuild_cb r err s1)))
      else s)"

fun run :: "(js_string \<Rightarrow> js_string \<Rightarrow> js_string) \<Rightarrow> event list \<Rightarrow> rebuilder \<Rightarrow> rebuilder" where
  "run join [] s = s"
| "run join (e # es) s = run join es (step join e s)"

fun fs_error_free :: "event \<Rightarrow> bool" where
  "fs_error_free (Fs k e) = (\<not> is_error_event e)"
| "fs_error_free e = True"

fun is_spawn :: "action \<Rightarrow> bool" where
  "is_spawn (Spawned command) = True"
| "is_spawn a = False"

fun done_values :: "action list \<Rightarrow> err_value list" where
  "done_values [] = []"
| "done_values (Called r err # as) = err # done_values as"
| "done_values (a # as) = done_values as"

section \<open>Concrete runs\<close>

text \<open>
  A tree \<^verbatim>\<open>/w\<close> on a POSIX system, where \<^verbatim>\<open>path_.join(p, f)\<close> of a normalized
  path and a name is the two joined by a slash.
\<close>

definition posix_join :: "js_string \<Rightarrow> js_string \<Rightarrow> js_string" where
  "posix_join p f = p @ js ''/'' @ f"

definition dir_stat :: "real \<Rightarrow> js_error + stat" where
  "dir_stat t = Inr \<lparr>mtimeMs = t, isDirectory = True\<rparr>"

definition file_stat :: "real \<Rightarrow> js_error + stat" where
  "file_stat t = Inr \<lparr>mtimeMs = t, isDirectory = False\<rparr>"

definition ENOENT :: js_error where
  "ENOENT = Error (js ''ENOENT'')"

text \<open>
  \<^verbatim>\<open>/w\<close> holds the directory \<^verbatim>\<open>a\<close> and the entry \<^verbatim>\<open>b\<close>, which is gone when it
  is looked at; \<^verbatim>\<open>a\<close> holds \<^verbatim>\<open>x\<close> and \<^verbatim>\<open>y\<close>, and is listed after the failure.
\<close>

definition scan_error_then_listing :: "fs_event list" where
  "scan_error_then_listing =
     [StatDone (js ''/w'') (dir_stat 1),
      ReaddirDone (js ''/w'') (Inr [js ''a'', js ''b'']),
      StatDone (js ''/w/a'') (dir_stat 2),
      StatDone (js ''/w/b'') (Inl ENOENT),
      ReaddirDone (js ''/w/a'') (Inr [js ''x'', js ''y''])]"

text \<open>A scan of \<^verbatim>\<open>/w\<close> holding the files \<^verbatim>\<open>b\<close> and \<^verbatim>\<open>a\<close>, listed in that order.\<close>

definition scan_two_files :: "fs_event list" where
  "scan_two_files =
     [StatDone (js ''/w'') (dir_stat 1),
      ReaddirDone (js ''/w'') (Inr [js ''b'', js ''a'']),
      StatDone (js ''/w/b'') (file_stat 3),
      StatDone (js ''/w/a'') (file_stat 2)]"

text \<open>One request; both entries of \<^verbatim>\<open>/w\<close> are gone when they are looked at.\<close>

definition run_two_scan_errors :: "event list" where
  "run_two_scan_errors =
     [Request 0, Tick,
      Fs 0 (StatDone (js ''/w'') (dir_stat 1)),
      Fs 0 (ReaddirDone (js ''/w'') (Inr [js ''a'', js ''b''])),
      Fs 0 (StatDone (js ''/w/a'') (Inl ENOENT)),
      Fs 0 (StatDone (js ''/w/b'') (Inl ENOENT))]"

text \<open>
  One request on the empty directory \<^verbatim>\<open>/w\<close>; the build command exits with code
  1 and has written nothing; the rescan succeeds.
\<close>

definition run_silent_build_failure :: "event list" where
  "run_silent_build_failure =
     [Request 0, Tick,
      Fs 0 (StatDone (js ''/w'') (dir_stat 1)),
      Fs 0 (ReaddirDone (js ''/w'') (Inr [])),
      Child 0 (ChildExit (Some 1) None),
      Fs 1 (StatDone (js ''/w'') (dir_stat 1)),
      Fs 1 (ReaddirDone (js ''/w'') (Inr []))]"

text \<open>One request on the empty directory \<^verbatim>\<open>/w\<close>, no build command; the rescan fails.\<close>

definition run_rescan_fails :: "event list" where
  "run_rescan_fails =
     [Request 0, Tick,
      Fs 0 (StatDone (js ''/w'') (dir_stat 1)),
      Fs 0 (ReaddirDone (js ''/w'') (Inr [])),
      Fs 1 (StatDone (js ''/w'') (Inl ENOENT))]"

text \<open>Two requests on the empty directory \<^verbatim>\<open>/w\<close>, no build command, no failure.\<close>

definition run_static_site :: "event list" where
  "run_static_site =
     [Request 0, Tick, Request 1,
      Fs 0 (StatDone (js ''/w'') (dir_stat 1)),
      Fs 0 (ReaddirDone (js ''/w'') (Inr [])),
      Fs 1 (StatDone (js ''/w'') (dir_stat 1)),
      Fs 1 (ReaddirDone (js ''/w'') (Inr [])),
      Tick,
      Fs 2 (StatDone (js ''/w'') (dir_stat 1)),
      Fs 2 (ReaddirDone (js ''/w'') (Inr []))]"

text \<open>
  Three requests; both entries of \<^verbatim>\<open>/w\<close> are gone when the scan of the first
  looks at them, and each deferred dispatch runs right after the failure that
  scheduled it.
\<close>

definition run_double_release :: "event list" where
  "run_double_release =
     [Request 0, Tick, Request 1, Request 2,
      Fs 0 (StatDone (js ''/w'') (dir_stat 1)),
      Fs 0 (ReaddirDone (js ''/w'') (Inr [js ''a'', js ''b''])),
      Fs 0 (StatDone (js ''/w/a'') (Inl ENOENT)), Tick,
      Fs 0 (StatDone (js ''/w/b'') (Inl ENOENT)), Tick]"

text \<open>Three clients of the lock; each releases it once, while it runs.\<close>

definition three_clients :: "nat lq_event list" where
  "three_clients =
     [Lock 10, Lock 20, RunTick, Lock 30, Unlock 10, RunTick, Unlock 20, RunTick]"

text \<open>
  What the lock sees in the run of three requests above: the first operation
  releases twice, and a deferred dispatch runs after each release.
\<close>

definition double_release :: "nat lq_event list" where
  "double_release =
     [Lock 0, RunTick, Lock 1, Lock 2, Unlock 0, RunTick, Unlock 0, RunTick]"

text \<open>
  Three operations wait; the first one calls the release function twice before
  the next tick.
\<close>

definition double_release_at_once :: "nat lq_event list" where
  "double_release_at_once =
     [Lock 10, Lock 20, Lock 30, RunTick, Unlock 10, Unlock 10, RunTick, RunTick]"

text \<open>
  A request with no build command on \<^verbatim>\<open>/w\<close> holding the files \<^verbatim>\<open>b\<close> and
  \<^verbatim>\<open>a\<close>, up to the last completion of the rescan.
\<close>

definition run_before_caching :: "event list" where
  "run_before_caching =
     [Request 0, Tick] @ map (Fs 0) scan_two_files @ map (Fs 1) (butlast scan_two_files)"

section \<open>Predicates on states and histories\<close>

text \<open>
  The invariant of the lock, for the arrivals \<open>arr\<close> so far: at most one
  operation was started and has not released; the operations started are the
  first arrivals, in order; the queue holds the arrivals that have not released,
  in order; a dispatch is scheduled exactly when nothing runs and the queue is
  not empty; no dispatch has thrown; the operations in progress are those
  started after the last release.
\<close>

definition lq_inv :: "'a list \<Rightarrow> 'a lq_sys \<Rightarrow> bool" where
  "lq_inv arr s \<longleftrightarrow>
     released (obs s) \<le> length (started (obs s)) \<and>
     length (started (obs s)) \<le> released (obs s) + 1 \<and>
     started (obs s) = take (length (started (obs s))) arr \<and>
     lock_queue (lq s) = drop (released (obs s)) arr \<and>
     ticks (lq s) =
       (if length (started (obs s)) = released (obs s) \<and> lock_queue (lq s) \<noteq> [] then 1 else 0) \<and>
     failures (obs s) = 0 \<and>
     in_progress (obs s) = drop (released (obs s)) (started (obs s))"

text \<open>No build command is configured: \<^verbatim>\<open>!command\<close> holds.\<close>

definition no_command :: "rebuilder \<Rightarrow> bool" where
  "no_command s \<longleftrightarrow> rebuild_command s = None \<or> rebuild_command s = Some []"

text \<open>With no build command, no child exists and no process was spawned.\<close>

definition static_inv :: "rebuilder \<Rightarrow> bool" where
  "static_inv s \<longleftrightarrow> no_command s \<and> children s = [] \<and> filter is_spawn (history s) = []"

text \<open>Every value handed to a callback of \<^verbatim>\<open>rebuildIfNecessary\<close> so far is null.\<close>

definition all_null :: "rebuilder \<Rightarrow> bool" where
  "all_null s \<longleftrightarrow> set (done_values (history s)) \<subseteq> {Null}"

text \<open>
  Every call of a callback of \<^verbatim>\<open>rebuildIfNecessary\<close> comes right after a call of
  the release function made for the same request, and every release is followed
  by such a call.
\<close>

fun release_then_done :: "action list \<Rightarrow> bool" where
  "release_then_done [] = True"
| "release_then_done (Unlocked r # Called r' err # as) = (r = r' \<and> release_then_done as)"
| "release_then_done (Spawned command # as) = release_then_done as"
| "release_then_done (Thrown e # as) = release_then_done as"
| "release_then_done as = False"

section \<open>Properties of equalsState\<close>

declare equalsState_loop.simps [simp del]

lemma equalsState_loop_iff:
  "equalsState_loop i a b \<longleftrightarrow>
     (\<forall>j. i \<le> j \<and> j < length a \<longrightarrow> path (a ! j) = path (b ! j) \<and> mtime (a ! j) = mtime (b ! j))"
proof (induction i a b rule: equalsState_loop.induct)
  case (1 i a b)
  show ?case
  proof (cases "i < length a")
    case False
    then show ?thesis by (subst equalsState_loop.simps) auto
  next
    case True
    note lt = this
    show ?thesis
    proof (cases "path (a ! i) = path (b ! i) \<and> mtime (a ! i) = mtime (b ! i)")
      case False
      with lt show ?thesis
        by (subst equalsState_loop.simps) auto
    next
      case True
      note eq = this
      have "equalsState_loop i a b = equalsState_loop (i + 1) a b"
        using lt eq by (subst equalsState_loop.simps) simp
      also have "\<dots> \<longleftrightarrow> (\<forall>j. i + 1 \<le> j \<and> j < length a \<longrightarrow>
          path (a ! j) = path (b ! j) \<and> mtime (a ! j) = mtime (b ! j))"
        using "1.IH" lt eq by simp
      also have "\<dots> \<longleftrightarrow> (\<forall>j. i \<le> j \<and> j < length a \<longrightarrow>
          path (a ! j) = path (b ! j) \<and> mtime (a ! j) = mtime (b ! j))"
      proof (intro iffI allI impI)
        fix j
        assume h: "\<forall>j. i + 1 \<le> j \<and> j < length a \<longrightarrow>
          path (a ! j) = path (b ! j) \<and> mtime (a ! j) = mtime (b ! j)"
          and j: "i \<le> j \<and> j < length a"
        show "path (a ! j) = path (b ! j) \<and> mtime (a ! j) = mtime (b ! j)"
        proof (cases "j = i")
          case True
          with eq show ?thesis by simp
        next
          case False
          with j have "i + 1 \<le> j \<and> j < length a" by arith
          with h show ?thesis by blast
        qed
      next
        fix j
        assume h: "\<forall>j. i \<le> j \<and> j < length a \<longrightarrow>
          path (a ! j) = path (b ! j) \<and> mtime (a ! j) = mtime (b ! j)"
          and j: "i + 1 \<le> j \<and> j < length a"
        from j have "i \<le> j \<and> j < length a" by arith
        with h show "path (a ! j) = path (b ! j) \<and> mtime (a ! j) = mtime (b ! j)" by blast
      qed
      finally show ?thesis .
    qed
  qed
qed

text \<open>
  C5: for two disk states that are arrays, \<^verbatim>\<open>equalsState\<close> returns true exactly
  when they have the same length and, at every index, the same path and the same
  mtime; in particular it returns false when the lengths differ.
\<close>

theorem equalsState_spec:
  "equalsState (Some a) (Some b) =
     Inr (length a = length b \<and>
          (\<forall>i<length a. path (a ! i) = path (b ! i) \<and> mtime (a ! i) = mtime (b ! i)))
   \<and> (length a \<noteq> length b \<longrightarrow> equalsState (Some a) (Some b) = Inr False)"
  by (simp add: equalsState_loop_iff)

theorem equalsState_spec_witness:
  "equalsState (Some [\<lparr>path = js ''a'', mtime = 1\<rparr>, \<lparr>path = js ''b'', mtime = 2\<rparr>])
               (Some [\<lparr>path = js ''a'', mtime = 1\<rparr>, \<lparr>path = js ''b'', mtime = 2\<rparr>]) = Inr True
   \<and> equalsState (Some [\<lparr>path = js ''a'', mtime = 1\<rparr>, \<lparr>path = js ''b'', mtime = 2\<rparr>])
               (Some [\<lparr>path = js ''a'', mtime = 1\<rparr>, \<lparr>path = js ''b'', mtime = 3\<rparr>]) = Inr False
   \<and> length [\<lparr>path = js ''a'', mtime = 1\<rparr>] \<noteq> length [\<lparr>path = js ''a'', mtime = 1\<rparr>, \<lparr>path = js ''b'', mtime = 2\<rparr>]
   \<and> equalsState (Some [\<lparr>path = js ''a'', mtime = 1\<rparr>])
               (Some [\<lparr>path = js ''a'', mtime = 1\<rparr>, \<lparr>path = js ''b'', mtime = 2\<rparr>]) = Inr False"
  using equalsState_spec [of "[\<lparr>path = js ''a'', mtime = 1\<rparr>, \<lparr>path = js ''b'', mtime = 2\<rparr>]"
                              "[\<lparr>path = js ''a'', mtime = 1\<rparr>, \<lparr>path = js ''b'', mtime = 2\<rparr>]"]
        equalsState_spec [of "[\<lparr>path = js ''a'', mtime = 1\<rparr>, \<lparr>path = js ''b'', mtime = 2\<rparr>]"
                              "[\<lparr>path = js ''a'', mtime = 1\<rparr>, \<lparr>path = js ''b'', mtime = 3\<rparr>]"]
        equalsState_spec [of "[\<lparr>path = js ''a'', mtime = 1\<rparr>]"
                              "[\<lparr>path = js ''a'', mtime = 1\<rparr>, \<lparr>path = js ''b'', mtime = 2\<rparr>]"]
  by (simp add: less_Suc_eq js_def)

text \<open>
  C8: \<^verbatim>\<open>equalsState\<close> is symmetric (the two calls return the same value, or
  throw alike when both arguments are \<^verbatim>\<open>null\<close>), and it returns true on a disk
  state and itself.
\<close>

theorem equalsState_symmetric_reflexive:
  "equalsState x y = equalsState y x \<and> equalsState (Some a) (Some a) = Inr True"
proof
  show "equalsState x y = equalsState y x"
  proof (cases x)
    case None
    then show ?thesis by (cases y) simp_all
  next
    case (Some a)
    show ?thesis
    proof (cases y)
      case None
      with Some show ?thesis by simp
    next
      case (Some b)
      have "(\<forall>i<length a. path (a ! i) = path (b ! i) \<and> mtime (a ! i) = mtime (b ! i))
            = (\<forall>i<length a. path (b ! i) = path (a ! i) \<and> mtime (b ! i) = mtime (a ! i))"
        by auto
      with \<open>x = Some a\<close> Some show ?thesis
        by (auto simp: equalsState_loop_iff)
    qed
  qed
  show "equalsState (Some a) (Some a) = Inr True"
    by (simp add: equalsState_loop_iff)
qed

section \<open>The outcome of rebuild\<close>

lemma child_run_data:
  "child_run (map data_event ds) c = (c\<lparr>output_text := output_text c @ concat (map snd ds)\<rparr>, [])"
proof (induction ds arbitrary: c)
  case Nil
  show ?case by simp
next
  case (Cons d ds)
  obtain b x where d: "d = (b, x)" by (cases d)
  show ?case using Cons.IH by (simp add: d)
qed

lemma child_run_signaled:
  "signaled c \<Longrightarrow> child_run es c = (c\<lparr>output_text := output_text c @ concat (map (\<lambda>e. case e of StdoutData d \<Rightarrow> d | StderrData d \<Rightarrow> d | _ \<Rightarrow> []) es)\<rparr>, [])"
proof (induction es arbitrary: c)
  case Nil
  show ?case by simp
next
  case (Cons e es)
  show ?case
  proof (cases e)
    case (StdoutData d)
    with Cons.prems Cons.IH [of "c\<lparr>output_text := output_text c @ d\<rparr>"] show ?thesis by simp
  next
    case (StderrData d)
    with Cons.prems Cons.IH [of "c\<lparr>output_text := output_text c @ d\<rparr>"] show ?thesis by simp
  next
    case (ChildError x)
    with Cons.prems Cons.IH [of c] show ?thesis by simp
  next
    case (ChildExit code signal)
    with Cons.prems Cons.IH [of c] show ?thesis by simp
  qed
qed

lemma child_run_signaled_calls: "signaled c \<Longrightarrow> snd (child_run es c) = []"
  by (simp add: child_run_signaled)

lemma child_run_Cons:
  "child_run (e # es) c =
     (fst (child_run es (fst (child_step e c))),
      (case snd (child_step e c) of None \<Rightarrow> [] | Some x \<Rightarrow> [x]) @
      snd (child_run es (fst (child_step e c))))"
  by (simp split: prod.splits)

lemma child_run_append:
  "child_run (es @ fs) c =
     (fst (child_run fs (fst (child_run es c))),
      snd (child_run es c) @ snd (child_run fs (fst (child_run es c))))"
proof (induction es arbitrary: c)
  case Nil
  show ?case by simp
next
  case (Cons e es)
  show ?case
    unfolding append_Cons child_run_Cons Cons.IH by simp
qed

text \<open>
  C4: on a child that was just spawned, whatever data arrives first and whatever
  follows the ending event, the callback of \<^verbatim>\<open>rebuild\<close> is called exactly once.
  When the ending event is \<^verbatim>\<open>error\<close> it receives the error object. When it is
  \<^verbatim>\<open>exit\<close> it receives the text collected from both streams, in the order of
  arrival, if the exit code is a number other than 0 or there is a signal (the
  build failed), and \<^verbatim>\<open>null\<close> otherwise (the build succeeded).
\<close>

theorem rebuild_outcome:
  "snd (child_run (map data_event ds @ ChildError err # rest) spawned) = [ErrObj err] \<and>
   snd (child_run (map data_event ds @ ChildExit code signal # rest) spawned) =
     [if (\<exists>c. code = Some c \<and> c \<noteq> 0) \<or> (\<exists>sg. signal = Some sg \<and> sg \<noteq> [])
      then Str (concat (map snd ds)) else Null]"
proof -
  have cs: "code_or_signal code signal \<longleftrightarrow>
      (\<exists>c. code = Some c \<and> c \<noteq> 0) \<or> (\<exists>sg. signal = Some sg \<and> sg \<noteq> [])"
    by (auto simp: code_or_signal_def split: option.splits)
  have a: "snd (child_run (ChildError err # rest) (spawned\<lparr>output_text := output_text spawned @ concat (map snd ds)\<rparr>)) = [ErrObj err]"
    by (simp add: spawned_def child_run_signaled split: prod.splits)
  have b: "snd (child_run (ChildExit code signal # rest) (spawned\<lparr>output_text := output_text spawned @ concat (map snd ds)\<rparr>)) =
     [if code_or_signal code signal then Str (concat (map snd ds)) else Null]"
    by (simp add: spawned_def child_run_signaled split: prod.splits)
  show ?thesis
    using a b by (simp add: child_run_append child_run_data cs)
qed

section \<open>The results of a scan are sorted\<close>

lemma compare_le_0: "compare a b \<le> 0 \<longleftrightarrow> a \<le> b"
  by (auto simp: compare_def)

lemma compare_trichotomy:
  "(compare a b = - 1) = (a < b) \<and> (compare a b = 0) = (a = b) \<and> (compare a b = 1) = (b < a)"
  by (auto simp: compare_def)

lemma set_insert_by: "set (insert_by cmp x ys) = insert x (set ys)"
  by (induction ys) auto

lemma mset_insert_by: "mset (insert_by cmp x ys) = add_mset x (mset ys)"
  by (induction ys) auto

lemma sorted_insert_by:
  "sorted (map path ys) \<Longrightarrow>
   sorted (map path (insert_by (\<lambda>a b. compare (path a) (path b)) x ys))"
  by (induction ys) (auto simp: compare_le_0 set_insert_by)

lemma sorted_array_sort:
  "sorted (map path (array_sort (\<lambda>a b. compare (path a) (path b)) xs))"
  unfolding array_sort_def by (induction xs) (simp_all add: sorted_insert_by)

lemma mset_array_sort: "mset (array_sort cmp xs) = mset xs"
  unfolding array_sort_def by (induction xs) (simp_all add: mset_insert_by)

lemma done_fn_emits:
  "done_fn g = (g1, Some (err, rs)) \<Longrightarrow>
   err = Null \<and> rs = results g1 \<and> sorted (map path rs) \<and> mset rs = mset (results g) \<and> expected g1 = 0"
  by (auto simp: done_fn_def Let_def sorted_array_sort mset_array_sort split: if_splits)

lemma error_emits:
  "error e g = (g1, c) \<Longrightarrow> c = Some (ErrObj e, results g) \<and> results g1 = results g"
  by (auto simp: error_def Let_def)

lemma fs_step_emits:
  assumes "fs_step join e g = (g1, Some (err, rs))" and "\<not> truthy err"
  shows "rs = results g1 \<and> sorted (map path rs)"
proof (cases e)
  case (StatDone p r)
  show ?thesis
  proof (cases r)
    case (Inl x)
    with assms StatDone show ?thesis
      by (auto simp: stat_cb_def dest!: error_emits split: if_splits)
  next
    case (Inr st)
    with assms StatDone show ?thesis
      by (auto simp: stat_cb_def Let_def dest!: done_fn_emits split: if_splits)
  qed
next
  case (ReaddirDone p r)
  show ?thesis
  proof (cases r)
    case (Inl x)
    with assms ReaddirDone show ?thesis
      by (auto simp: readdir_cb_def dest!: error_emits split: if_splits)
  next
    case (Inr files)
    with assms ReaddirDone show ?thesis
      by (auto simp: readdir_cb_def dest!: done_fn_emits split: if_splits)
  qed
qed

lemma gather_run_Cons:
  "gather_run join (e # es) g =
     (fst (gather_run join es (fst (fs_step join e g))),
      (case snd (fs_step join e g) of None \<Rightarrow> [] | Some x \<Rightarrow> [x]) @
      snd (gather_run join es (fst (fs_step join e g))))"
  by (simp split: prod.splits)

lemma gather_run_sorted:
  "(err, rs) \<in> set (snd (gather_run join es g)) \<Longrightarrow> \<not> truthy err \<Longrightarrow> sorted (map path rs)"
proof (induction es arbitrary: g)
  case Nil
  then show ?case by simp
next
  case (Cons e es)
  obtain g1 c where st: "fs_step join e g = (g1, c)" by (cases "fs_step join e g")
  from Cons.prems(1) have "(err, rs) \<in> set (case c of None \<Rightarrow> [] | Some x \<Rightarrow> [x]) \<or>
      (err, rs) \<in> set (snd (gather_run join es g1))"
    unfolding gather_run_Cons st by simp
  then show ?case
  proof
    assume "(err, rs) \<in> set (case c of None \<Rightarrow> [] | Some x \<Rightarrow> [x])"
    then have "c = Some (err, rs)" by (cases c) auto
    with st Cons.prems(2) fs_step_emits show ?thesis by blast
  next
    assume "(err, rs) \<in> set (snd (gather_run join es g1))"
    with Cons.IH Cons.prems(2) show ?thesis by blast
  qed
qed

lemma unlock_and_callback_frame:
  "disk_state (unlock_and_callback r err s) = disk_state s"
  "scans (unlock_and_callback r err s) = scans s"
  by (simp_all add: unlock_and_callback_def)

lemma start_gatherState_disk_state: "disk_state (start_gatherState kind r s) = disk_state s"
  by (simp add: start_gatherState_def)

lemma rebuild_cb_disk_state: "disk_state (rebuild_cb r err s) = disk_state s"
  by (simp add: rebuild_cb_def unlock_and_callback_frame start_gatherState_disk_state)

lemma rebuild_disk_state: "disk_state (rebuild r s) = disk_state s"
  by (simp add: rebuild_def rebuild_cb_disk_state split: option.splits)

lemma scan_cb_disk_state: "disk_state (scan_cb r k err s) = disk_state s"
  by (simp add: scan_cb_def unlock_and_callback_frame rebuild_disk_state split: sum.splits)

lemma rescan_cb_cases:
  "rescan_cb r k err s = unlock_and_callback r err (if truthy err then s else s\<lparr>disk_state := Some k\<rparr>)"
  by (simp add: rescan_cb_def)

lemma step_caches_sorted:
  assumes "disk_state (step join e s) \<noteq> disk_state s"
  shows "sorted (map path (disk_state_value (step join e s)))"
proof (cases e)
  case (Request r)
  with assms show ?thesis by (simp add: rebuildIfNecessary_def)
next
  case Tick
  with assms show ?thesis
    by (auto simp: Let_def scan_def start_gatherState_def split: if_splits sum.splits)
next
  case (Child c ce)
  with assms show ?thesis
    by (auto simp: Let_def rebuild_cb_disk_state split: if_splits prod.splits option.splits)
next
  case (Fs k fe)
  show ?thesis
  proof (cases "k < length (scans s)")
    case False
    with assms Fs show ?thesis by simp
  next
    case True
    obtain kind r g where sk: "scans s ! k = (kind, r, g)" by (cases "scans s ! k")
    obtain g1 c where st: "fs_step join fe g = (g1, c)" by (cases "fs_step join fe g")
    define s1 where "s1 = s\<lparr>scans := (scans s)[k := (kind, r, g1)]\<rparr>"
    have ds1: "disk_state s1 = disk_state s" by (simp add: s1_def)
    show ?thesis
    proof (cases c)
      case None
      with assms Fs True sk st show ?thesis by simp
    next
      case (Some cb)
      obtain err rs where cb: "cb = (err, rs)" by (cases cb)
      show ?thesis
      proof (cases kind)
        case FirstScan
        have "step join e s = scan_cb r k err s1"
          using Fs True sk st Some cb FirstScan by (simp add: s1_def)
        with assms ds1 show ?thesis by (simp add: scan_cb_disk_state)
      next
        case Rescan
        have eq: "step join e s = rescan_cb r k err s1"
          using Fs True sk st Some cb Rescan by (simp add: s1_def)
        show ?thesis
        proof (cases "truthy err")
          case True
          with eq assms ds1 show ?thesis
            by (simp add: rescan_cb_cases unlock_and_callback_frame)
        next
          case False
          from st Some cb False have srt: "rs = results g1 \<and> sorted (map path rs)"
            using fs_step_emits by blast
          have "disk_state_value (step join e s) = results g1"
            using eq False \<open>k < length (scans s)\<close>
            by (simp add: rescan_cb_cases disk_state_value_def scan_results_def
                unlock_and_callback_def s1_def)
          moreover from srt have "sorted (map path (results g1))" by blast
          ultimately show ?thesis by simp
        qed
      qed
    qed
  qed
qed

text \<open>
  C6: every call of the callback of a scan that reports success (\<^verbatim>\<open>err\<close> is
  \<^verbatim>\<open>null\<close>) carries results sorted ascending by path; whenever a step of the
  program replaces the cached \<^verbatim>\<open>disk_state\<close>, the new value is sorted at that
  moment; and the order is that of \<^verbatim>\<open>compare\<close>, which is total and compares code
  units only: of two paths exactly one is smaller, or they are equal. The sort
  is done by \<^verbatim>\<open>done\<close> at the end of the scan, for any order of completion.
\<close>

theorem scan_emits_sorted:
  "(\<forall>(err, rs) \<in> set (snd (gather_run join es g)). err = Null \<longrightarrow> sorted (map path rs)) \<and>
   (disk_state (step join e s) \<noteq> disk_state s \<longrightarrow>
      sorted (map path (disk_state_value (step join e s)))) \<and>
   ((compare a b = - 1) = (a < b) \<and> (compare a b = 0) = (a = b) \<and> (compare a b = 1) = (b < a))"
  using gather_run_sorted [of _ _ join es g] step_caches_sorted [of join e s] compare_trichotomy [of a b]
  by (auto simp del: step.simps)

theorem scan_emits_sorted_witness:
  "snd (gather_run posix_join scan_two_files (gatherState (js ''/w''))) =
     [(Null, [\<lparr>path = js ''/w'', mtime = 1\<rparr>, \<lparr>path = js ''/w/a'', mtime = 2\<rparr>,
              \<lparr>path = js ''/w/b'', mtime = 3\<rparr>])] \<and>
   sorted (map path [\<lparr>path = js ''/w'', mtime = 1\<rparr>, \<lparr>path = js ''/w/a'', mtime = 2\<rparr>,
              \<lparr>path = js ''/w/b'', mtime = 3\<rparr>]) \<and>
   disk_state (step posix_join (Fs 1 (StatDone (js ''/w/a'') (file_stat 2)))
       (run posix_join run_before_caching (new_Rebuilder (js ''/w'') None))) \<noteq>
     disk_state (run posix_join run_before_caching (new_Rebuilder (js ''/w'') None)) \<and>
   sorted (map path (disk_state_value (step posix_join (Fs 1 (StatDone (js ''/w/a'') (file_stat 2)))
       (run posix_join run_before_caching (new_Rebuilder (js ''/w'') None))))) \<and>
   compare (js ''a'') (js ''b'') = - 1 \<and> js ''a'' < js ''b''"
proof -
  have ev: "snd (gather_run posix_join scan_two_files (gatherState (js ''/w''))) =
     [(Null, [\<lparr>path = js ''/w'', mtime = 1\<rparr>, \<lparr>path = js ''/w/a'', mtime = 2\<rparr>,
              \<lparr>path = js ''/w/b'', mtime = 3\<rparr>])]"
    by code_simp
  have ch: "disk_state (step posix_join (Fs 1 (StatDone (js ''/w/a'') (file_stat 2)))
       (run posix_join run_before_caching (new_Rebuilder (js ''/w'') None))) \<noteq>
     disk_state (run posix_join run_before_caching (new_Rebuilder (js ''/w'') None))"
    by code_simp
  have lt: "js ''a'' < js ''b''" by code_simp
  from scan_emits_sorted [of posix_join scan_two_files "gatherState (js ''/w'')"
      "Fs 1 (StatDone (js ''/w/a'') (file_stat 2))"
      "run posix_join run_before_caching (new_Rebuilder (js ''/w'') None)"
      "js ''a''" "js ''b''"]
  show ?thesis
    unfolding ev using ch lt by (simp del: step.simps)
qed

section \<open>The lock queue\<close>

lemma started_append: "started (xs @ ys) = started xs @ started ys"
  by (induction xs rule: started.induct) simp_all

lemma released_append: "released (xs @ ys) = released xs + released ys"
  by (induction xs rule: released.induct) simp_all

lemma failures_append: "failures (xs @ ys) = failures xs + failures ys"
  by (induction xs rule: failures.induct) simp_all

lemma arrivals_append: "arrivals (xs @ ys) = arrivals xs @ arrivals ys"
  by (induction xs rule: arrivals.induct) simp_all

lemma in_progress_snoc: "in_progress (os @ [x]) = progress (in_progress os) x"
  by (simp add: in_progress_def)

lemma lq_inv_started_le: "lq_inv arr s \<Longrightarrow> length (started (obs s)) \<le> length arr"
proof -
  assume "lq_inv arr s"
  then have "started (obs s) = take (length (started (obs s))) arr" by (simp add: lq_inv_def)
  then have "length (started (obs s)) = length (take (length (started (obs s))) arr)" by simp
  then show ?thesis by simp
qed

lemma lq_inv_Lock:
  assumes "lq_inv arr s"
  shows "lq_inv (arr @ [a]) (lq_step (Lock a) s)"
proof -
  let ?n = "length (started (obs s))" and ?m = "released (obs s)"
  from assms have le: "?n \<le> length arr" by (rule lq_inv_started_le)
  from assms have i: "?m \<le> ?n" "?n \<le> ?m + 1" "started (obs s) = take ?n arr"
    "lock_queue (lq s) = drop ?m arr"
    "ticks (lq s) = (if ?n = ?m \<and> lock_queue (lq s) \<noteq> [] then 1 else 0)"
    "failures (obs s) = 0"
    "in_progress (obs s) = drop ?m (started (obs s))"
    by (simp_all add: lq_inv_def)
  have q: "lock_queue (lq (lq_step (Lock a) s)) = lock_queue (lq s) @ [a]"
    by (simp add: lq_lock_def Let_def)
  have o: "obs (lq_step (Lock a) s) = obs s" by simp
  have t: "ticks (lq (lq_step (Lock a) s)) =
      (if lock_queue (lq s) = [] then ticks (lq s) + 1 else ticks (lq s))"
    by (auto simp: lq_lock_def Let_def)
  have e: "lock_queue (lq s) = [] \<Longrightarrow> ?n = ?m"
    using i(1) i(4) le by simp
  show ?thesis
    unfolding lq_inv_def o q t
    using i le e by auto
qed

lemma lq_inv_RunTick:
  assumes "lq_inv arr s"
  shows "lq_inv arr (lq_step RunTick s)"
proof (cases "ticks (lq s) = 0")
  case True
  with assms show ?thesis by simp
next
  case False
  let ?n = "length (started (obs s))" and ?m = "released (obs s)"
  from assms have i: "?m \<le> ?n" "?n \<le> ?m + 1" "started (obs s) = take ?n arr"
    "lock_queue (lq s) = drop ?m arr"
    "ticks (lq s) = (if ?n = ?m \<and> lock_queue (lq s) \<noteq> [] then 1 else 0)"
    "failures (obs s) = 0"
    "in_progress (obs s) = drop ?m (started (obs s))"
    by (simp_all add: lq_inv_def)
  from False i(5) have nm: "?n = ?m" and ne: "lock_queue (lq s) \<noteq> []" and t1: "ticks (lq s) = 1"
    by (auto split: if_splits)
  from ne i(4) have lt: "?m < length arr" by simp
  then have hd: "lock_queue (lq s) = arr ! ?m # drop (Suc ?m) arr"
    using i(4) by (simp add: Cons_nth_drop_Suc)
  have st: "lq_step RunTick s =
      s\<lparr>lq := (lq s)\<lparr>ticks := 0\<rparr>, obs := obs s @ [Started (arr ! ?m)]\<rparr>"
    using False t1 hd by (simp add: lq_dispatch_def Let_def)
  have tk: "take (Suc ?m) arr = take ?m arr @ [arr ! ?m]"
    using lt by (simp add: take_Suc_conv_app_nth)
  from i(7) nm have ip: "in_progress (obs s) = []" by simp
  show ?thesis
    unfolding lq_inv_def st
    using i(1-6) nm ne tk ip
    by (simp add: started_append released_append failures_append in_progress_snoc)
qed

lemma lq_inv_Unlock:
  assumes "lq_inv arr s" and "a \<in> set (in_progress (obs s))"
  shows "lq_inv arr (lq_step (Unlock a) s)"
proof -
  let ?n = "length (started (obs s))" and ?m = "released (obs s)"
  from assms(1) have i: "?m \<le> ?n" "?n \<le> ?m + 1" "started (obs s) = take ?n arr"
    "lock_queue (lq s) = drop ?m arr"
    "ticks (lq s) = (if ?n = ?m \<and> lock_queue (lq s) \<noteq> [] then 1 else 0)"
    "failures (obs s) = 0"
    "in_progress (obs s) = drop ?m (started (obs s))"
    by (simp_all add: lq_inv_def)
  from assms(2) i(7) have "drop ?m (started (obs s)) \<noteq> []" by auto
  then have "?m < ?n" by simp
  with i(2) have nm: "?n = ?m + 1" by simp
  then have t0: "ticks (lq s) = 0" using i(5) by simp
  from nm have "length (drop ?m (started (obs s))) = 1" by simp
  then obtain b where b: "drop ?m (started (obs s)) = [b]"
    by (cases "drop ?m (started (obs s))") auto
  with assms(2) i(7) have ab: "in_progress (obs s) = [a]" by simp
  have q: "lock_queue (lq (lq_step (Unlock a) s)) = drop (Suc ?m) arr"
    using i(4) by (simp add: lq_unlock_def Let_def)
  have t: "ticks (lq (lq_step (Unlock a) s)) = (if drop (Suc ?m) arr \<noteq> [] then 1 else 0)"
    using i(4) t0 by (simp add: lq_unlock_def Let_def)
  have o: "obs (lq_step (Unlock a) s) = obs s @ [Released a]" by simp
  show ?thesis
    unfolding lq_inv_def q t o
    using i(1-6) nm ab
    by (simp add: started_append released_append failures_append in_progress_snoc)
qed

lemma lq_inv_run:
  "lq_inv arr s \<Longrightarrow> well_behaved es s \<Longrightarrow> lq_inv (arr @ arrivals es) (lq_run es s)"
proof (induction es arbitrary: arr s)
  case Nil
  then show ?case by simp
next
  case (Cons e es)
  show ?case
  proof (cases e)
    case (Lock a)
    from Cons.prems(1) have "lq_inv (arr @ [a]) (lq_step (Lock a) s)" by (rule lq_inv_Lock)
    moreover from Cons.prems(2) Lock have "well_behaved es (lq_step (Lock a) s)" by simp
    ultimately have "lq_inv ((arr @ [a]) @ arrivals es) (lq_run es (lq_step (Lock a) s))"
      by (rule Cons.IH)
    with Lock show ?thesis by simp
  next
    case RunTick
    from Cons.prems(1) have "lq_inv arr (lq_step RunTick s)" by (rule lq_inv_RunTick)
    moreover from Cons.prems(2) RunTick have "well_behaved es (lq_step RunTick s)" by simp
    ultimately have "lq_inv (arr @ arrivals es) (lq_run es (lq_step RunTick s))"
      by (rule Cons.IH)
    with RunTick show ?thesis by simp
  next
    case (Unlock a)
    from Cons.prems(2) Unlock have r: "a \<in> set (in_progress (obs s))" by simp
    with Cons.prems(1) have "lq_inv arr (lq_step (Unlock a) s)" by (rule lq_inv_Unlock)
    moreover from Cons.prems(2) Unlock have "well_behaved es (lq_step (Unlock a) s)" by simp
    ultimately have "lq_inv (arr @ arrivals es) (lq_run es (lq_step (Unlock a) s))"
      by (rule Cons.IH)
    with Unlock show ?thesis by simp
  qed
qed

lemma lq_inv_init: "lq_inv [] lq_init"
  by (simp add: lq_inv_def lq_init_def in_progress_def)

text \<open>
  What \<^verbatim>\<open>lock\<close>, the release function and a deferred dispatch do in one step:
  the first two start nothing and hand one \<^verbatim>\<open>_dispatch\<close> to \<^verbatim>\<open>process.nextTick\<close>
  (\<^verbatim>\<open>lock\<close> when the queue was empty, the release function when somebody still
  waits); a tick starts the head of the queue.
\<close>

lemma lq_step_deferred:
  "obs (lq_step (Lock a) s) = obs s \<and>
   lock_queue (lq (lq_step (Lock a) s)) = lock_queue (lq s) @ [a] \<and>
   ticks (lq (lq_step (Lock a) s)) = ticks (lq s) + (if lock_queue (lq s) = [] then 1 else 0) \<and>
   obs (lq_step (Unlock a) s) = obs s @ [Released a] \<and>
   lock_queue (lq (lq_step (Unlock a) s)) = drop 1 (lock_queue (lq s)) \<and>
   ticks (lq (lq_step (Unlock a) s)) =
     ticks (lq s) + (if 1 < length (lock_queue (lq s)) then 1 else 0) \<and>
   obs (lq_step RunTick s) =
     (if ticks (lq s) = 0 then obs s
      else case lock_queue (lq s) of
             [] \<Rightarrow> obs s @ [Failed TypeError]
           | item # rest \<Rightarrow> obs s @ [Started item]) \<and>
   ticks (lq (lq_step RunTick s)) = ticks (lq s) - 1"
  by (auto simp: lq_lock_def lq_unlock_def lq_dispatch_def Let_def split: list.splits)

text \<open>
  C7: when the operations handed to the lock are told apart and each of them
  calls the release function only while it is in progress (after it was
  started, and at most once), then at every moment: at most one operation is
  in progress; the operations started so far are the first arrivals, in their
  order of arrival; the queue holds, in order, the arrivals that have not
  released; the next dispatch is scheduled exactly when nothing is in progress
  and somebody waits; and no dispatch finds the queue empty. Neither \<^verbatim>\<open>lock\<close>
  nor the release function starts an operation: each hands one \<^verbatim>\<open>_dispatch\<close> to
  \<^verbatim>\<open>process.nextTick\<close>, and only a tick starts the head of the queue.
\<close>

theorem LockQueue_exclusive_fifo_deferred:
  assumes "distinct (arrivals es)" and "well_behaved es lq_init"
  shows "length (in_progress (obs (lq_run es lq_init))) \<le> 1 \<and>
         in_progress (obs (lq_run es lq_init)) =
           drop (released (obs (lq_run es lq_init))) (started (obs (lq_run es lq_init))) \<and>
         started (obs (lq_run es lq_init)) =
           take (length (started (obs (lq_run es lq_init)))) (arrivals es) \<and>
         lock_queue (lq (lq_run es lq_init)) =
           drop (released (obs (lq_run es lq_init))) (arrivals es) \<and>
         ticks (lq (lq_run es lq_init)) =
           (if in_progress (obs (lq_run es lq_init)) = [] \<and>
               lock_queue (lq (lq_run es lq_init)) \<noteq> []
            then 1 else 0) \<and>
         failures (obs (lq_run es lq_init)) = 0 \<and>
         obs (lq_step (Lock a) s) = obs s \<and>
         ticks (lq (lq_step (Lock a) s)) =
           ticks (lq s) + (if lock_queue (lq s) = [] then 1 else 0) \<and>
         obs (lq_step (Unlock a) s) = obs s @ [Released a] \<and>
         ticks (lq (lq_step (Unlock a) s)) =
           ticks (lq s) + (if 1 < length (lock_queue (lq s)) then 1 else 0) \<and>
         obs (lq_step RunTick s) =
           (if ticks (lq s) = 0 then obs s
            else case lock_queue (lq s) of
                   [] \<Rightarrow> obs s @ [Failed TypeError]
                 | item # rest \<Rightarrow> obs s @ [Started item])"
proof -
  let ?r = "lq_run es lq_init"
  from lq_inv_init assms(2) have "lq_inv ([] @ arrivals es) ?r"
    by (rule lq_inv_run)
  then have inv: "lq_inv (arrivals es) ?r" by simp
  let ?n = "length (started (obs ?r))" and ?m = "released (obs ?r)"
  from inv have i: "?m \<le> ?n" "?n \<le> ?m + 1" "started (obs ?r) = take ?n (arrivals es)"
    "lock_queue (lq ?r) = drop ?m (arrivals es)"
    "ticks (lq ?r) = (if ?n = ?m \<and> lock_queue (lq ?r) \<noteq> [] then 1 else 0)"
    "failures (obs ?r) = 0"
    "in_progress (obs ?r) = drop ?m (started (obs ?r))"
    by (simp_all add: lq_inv_def)
  from i(7) have len: "length (in_progress (obs ?r)) = ?n - ?m" by simp
  with i(2) have one: "length (in_progress (obs ?r)) \<le> 1" by simp
  from len i(1) have "(in_progress (obs ?r) = []) = (?n = ?m)" by (metis diff_is_0_eq le_antisym length_0_conv order_refl)
  with i(5) have tk: "ticks (lq ?r) =
      (if in_progress (obs ?r) = [] \<and> lock_queue (lq ?r) \<noteq> [] then 1 else 0)" by simp
  note d = lq_step_deferred [of a s]
  show ?thesis
    using one i(7) i(3) i(4) tk i(6) d by blast
qed

theorem LockQueue_exclusive_fifo_deferred_witness:
  "distinct (arrivals three_clients) \<and>
   well_behaved three_clients lq_init \<and>
   arrivals three_clients = [10, 20, 30] \<and>
   obs (lq_run three_clients lq_init) =
     [Started 10, Released 10, Started 20, Released 20, Started 30] \<and>
   in_progress (obs (lq_run three_clients lq_init)) = [30] \<and>
   length (in_progress (obs (lq_run three_clients lq_init))) \<le> 1 \<and>
   started (obs (lq_run three_clients lq_init)) = take 3 (arrivals three_clients) \<and>
   lock_queue (lq (lq_run three_clients lq_init)) = drop 2 (arrivals three_clients) \<and>
   ticks (lq (lq_run three_clients lq_init)) = 0"
proof -
  have di: "distinct (arrivals three_clients)" by code_simp
  have wb: "well_behaved three_clients lq_init" by code_simp
  have ar: "arrivals three_clients = [10, 20, 30]" by code_simp
  have ob: "obs (lq_run three_clients lq_init) =
     [Started 10, Released 10, Started 20, Released 20, Started 30]"
    by code_simp
  have ip: "in_progress [Started 10, Released 10, Started 20, Released 20, Started (30::nat)] = [30]"
    by code_simp
  from LockQueue_exclusive_fifo_deferred [OF di wb, where a = 0 and s = lq_init] show ?thesis
    unfolding ob ip using di wb ar by (auto simp: lq_init_def)
qed

text \<open>
  When an operation calls the release function twice, the lock does not keep
  one operation at a time, nor the order of arrival. In the run of three
  requests whose first scan fails twice, the second release shifts the second
  operation, which is in progress, out of the queue and schedules the third:
  the second and the third are in progress together, and so are their scans.
  When the two releases come before the next tick, the second operation is
  shifted out before it ever starts and the third is started twice.
\<close>

theorem LockQueue_double_release:
  "distinct (arrivals double_release) \<and>
   \<not> well_behaved double_release lq_init \<and>
   obs (lq_run double_release lq_init) =
     [Started 0, Released 0, Started 1, Released 0, Started 2] \<and>
   in_progress (obs (lq_run double_release lq_init)) = [1, 2] \<and>
   scans (run posix_join run_double_release (new_Rebuilder (js ''/w'') None)) ! 1 =
     (FirstScan, 1, gatherState (js ''/w'')) \<and>
   scans (run posix_join run_double_release (new_Rebuilder (js ''/w'') None)) ! 2 =
     (FirstScan, 2, gatherState (js ''/w'')) \<and>
   pending (gatherState (js ''/w'')) = [Stat (js ''/w'')] \<and>
   history (run posix_join run_double_release (new_Rebuilder (js ''/w'') None)) =
     [Unlocked 0, Called 0 (ErrObj ENOENT), Unlocked 0, Called 0 (ErrObj ENOENT)] \<and>
   arrivals double_release_at_once = [10, 20, 30] \<and>
   started (obs (lq_run double_release_at_once lq_init)) = [10, 30, 30] \<and>
   in_progress (obs (lq_run double_release_at_once lq_init)) = [30, 30]"
  by code_simp

section \<open>A scan calls back once when nothing fails\<close>

text \<open>
  While no operation has failed, \<^verbatim>\<open>expected\<close> is the number of operations in
  flight. So when no operation of a scan fails, its callback is called exactly
  once, with \<^verbatim>\<open>null\<close>, at the completion that leaves nothing in flight, and
  not before.
\<close>

lemma done_fn_simps:
  "pending (fst (done_fn g)) = pending g"
  "expected (fst (done_fn g)) = expected g - 1"
  "(snd (done_fn g) = None) = (expected g - 1 \<noteq> 0)"
  "snd (done_fn g) = Some (err, rs) \<Longrightarrow> err = Null"
  by (auto simp: done_fn_def Let_def split: if_splits)

lemma foldl_walk:
  "expected (foldl (\<lambda>g1 f. walk (join p f) g1) g files) = expected g + int (length files) \<and>
   pending (foldl (\<lambda>g1 f. walk (join p f) g1) g files) = pending g @ map (\<lambda>f. Stat (join p f)) files \<and>
   results (foldl (\<lambda>g1 f. walk (join p f) g1) g files) = results g"
  by (induction files arbitrary: g) (simp_all add: walk_def begin_fn_def Let_def)

lemma length_remove1_mem: "x \<in> set xs \<Longrightarrow> int (length (remove1 x xs)) = int (length xs) - 1"
proof -
  assume m: "x \<in> set xs"
  then have "length xs \<noteq> 0" by auto
  then obtain n where n: "length xs = Suc n" by (cases "length xs") auto
  from m have "length (remove1 x xs) = length xs - 1" by (simp add: length_remove1)
  with n show ?thesis by simp
qed

lemma fs_step_counts:
  assumes ex: "expected g = int (length (pending g))" and ne: "\<not> is_error_event e"
  shows "expected (fst (fs_step join e g)) = int (length (pending (fst (fs_step join e g)))) \<and>
         (pending g = [] \<longrightarrow> fs_step join e g = (g, None)) \<and>
         (pending g \<noteq> [] \<longrightarrow>
            (pending (fst (fs_step join e g)) = [] \<longrightarrow> (\<exists>rs. snd (fs_step join e g) = Some (Null, rs))) \<and>
            (pending (fst (fs_step join e g)) \<noteq> [] \<longrightarrow> snd (fs_step join e g) = None))"
proof (cases e)
  case (StatDone p r)
  with ne obtain st where r: "r = Inr st" by (cases r) auto
  show ?thesis
  proof (cases "Stat p \<in> set (pending g)")
    case False
    with StatDone ex show ?thesis by auto
  next
    case True
    let ?g = "g\<lparr>pending := remove1 (Stat p) (pending g),
                results := results g @ [\<lparr>path = p, mtime = mtimeMs st\<rparr>]\<rparr>"
    have len: "int (length (remove1 (Stat p) (pending g))) = int (length (pending g)) - 1"
      using True by (rule length_remove1_mem)
    show ?thesis
    proof (cases "isDirectory st")
      case True
      with \<open>Stat p \<in> set (pending g)\<close> StatDone r ex len show ?thesis
        by (auto simp: stat_cb_def Let_def)
    next
      case False
      have st: "fs_step join e g = done_fn ?g"
        using False \<open>Stat p \<in> set (pending g)\<close> StatDone r by (simp add: stat_cb_def Let_def)
      have a: "expected (fst (done_fn ?g)) = int (length (pending (fst (done_fn ?g))))"
        using ex len by (simp add: done_fn_simps)
      have b: "pending (fst (done_fn ?g)) = remove1 (Stat p) (pending g)"
        by (simp add: done_fn_simps)
      have "(remove1 (Stat p) (pending g) \<noteq> []) = (int (length (pending g)) - 1 \<noteq> 0)"
        unfolding len [symmetric] by simp
      then have c: "(snd (done_fn ?g) = None) = (remove1 (Stat p) (pending g) \<noteq> [])"
        using ex by (simp add: done_fn_simps)
      have d: "snd (done_fn ?g) \<noteq> None \<Longrightarrow> \<exists>rs. snd (done_fn ?g) = Some (Null, rs)"
        using done_fn_simps(4) [of ?g] by (cases "snd (done_fn ?g)") auto
      from \<open>Stat p \<in> set (pending g)\<close> have "pending g \<noteq> []" by auto
      then show ?thesis unfolding st using a b c d by auto
    qed
  qed
next
  case (ReaddirDone p r)
  with ne obtain files where r: "r = Inr files" by (cases r) auto
  show ?thesis
  proof (cases "Readdir p \<in> set (pending g)")
    case False
    with ReaddirDone ex show ?thesis by auto
  next
    case True
    let ?g0 = "g\<lparr>pending := remove1 (Readdir p) (pending g)\<rparr>"
    let ?g = "foldl (\<lambda>g1 f. walk (join p f) g1) ?g0 files"
    have len: "int (length (remove1 (Readdir p) (pending g))) = int (length (pending g)) - 1"
      using True by (rule length_remove1_mem)
    have st: "fs_step join e g = done_fn ?g"
      using True ReaddirDone r by (simp add: readdir_cb_def)
    have e1: "expected ?g = int (length (pending g)) + int (length files)"
      using ex by (simp add: foldl_walk)
    have p1: "pending ?g = remove1 (Readdir p) (pending g) @ map (\<lambda>f. Stat (join p f)) files"
      by (simp add: foldl_walk)
    have a: "expected (fst (done_fn ?g)) = int (length (pending (fst (done_fn ?g))))"
      using e1 p1 len by (simp add: done_fn_simps)
    have b: "pending (fst (done_fn ?g)) = pending ?g" by (simp add: done_fn_simps)
    have "int (length (pending ?g)) = expected ?g - 1"
      using e1 p1 len by simp
    then have "(expected ?g - 1 \<noteq> 0) = (pending ?g \<noteq> [])"
      by (metis length_0_conv of_nat_eq_0_iff)
    then have c: "(snd (done_fn ?g) = None) = (pending ?g \<noteq> [])"
      by (simp add: done_fn_simps)
    have d: "snd (done_fn ?g) \<noteq> None \<Longrightarrow> \<exists>rs. snd (done_fn ?g) = Some (Null, rs)"
      using done_fn_simps(4) [of ?g] by (cases "snd (done_fn ?g)") auto
    from True have "pending g \<noteq> []" by auto
    then show ?thesis unfolding st using a b c d by auto
  qed
qed

lemma gather_run_error_free:
  assumes "expected g = int (length (pending g))" and "list_all (\<lambda>e. \<not> is_error_event e) es"
  shows "expected (fst (gather_run join es g)) = int (length (pending (fst (gather_run join es g)))) \<and>
         (pending g = [] \<longrightarrow> gather_run join es g = (g, [])) \<and>
         (pending g \<noteq> [] \<longrightarrow>
            (pending (fst (gather_run join es g)) = [] \<longrightarrow>
               (\<exists>rs. snd (gather_run join es g) = [(Null, rs)])) \<and>
            (pending (fst (gather_run join es g)) \<noteq> [] \<longrightarrow> snd (gather_run join es g) = []))"
  using assms
proof (induction es arbitrary: g)
  case Nil
  then show ?case by simp
next
  case (Cons e es)
  let ?g1 = "fst (fs_step join e g)" and ?c = "snd (fs_step join e g)"
  from Cons.prems have ne: "\<not> is_error_event e" and rest: "list_all (\<lambda>e. \<not> is_error_event e) es"
    by simp_all
  note s = fs_step_counts [OF Cons.prems(1) ne, of join]
  from s have ex1: "expected ?g1 = int (length (pending ?g1))" by blast
  note ih = Cons.IH [OF ex1 rest]
  show ?case
  proof (cases "pending g = []")
    case True
    with s have "fs_step join e g = (g, None)" by blast
    with ih True Cons.prems(1) show ?thesis unfolding gather_run_Cons by simp
  next
    case False
    show ?thesis
    proof (cases "pending ?g1 = []")
      case True
      with s False obtain rs where "?c = Some (Null, rs)" by blast
      moreover from ih True have "gather_run join es ?g1 = (?g1, [])" by blast
      ultimately show ?thesis using False True ex1 unfolding gather_run_Cons by simp
    next
      case g1: False
      with s False have "?c = None" by blast
      with ih g1 False show ?thesis unfolding gather_run_Cons by simp
    qed
  qed
qed

lemma gatherState_error_free_once:
  assumes "list_all (\<lambda>e. \<not> is_error_event e) es"
  shows "(pending (fst (gather_run join es (gatherState root_dir))) = [] \<longrightarrow>
            (\<exists>rs. snd (gather_run join es (gatherState root_dir)) = [(Null, rs)])) \<and>
         (pending (fst (gather_run join es (gatherState root_dir))) \<noteq> [] \<longrightarrow>
            snd (gather_run join es (gatherState root_dir)) = [])"
proof -
  have "expected (gatherState root_dir) = int (length (pending (gatherState root_dir)))"
    and "pending (gatherState root_dir) \<noteq> []"
    by (simp_all add: gatherState_def walk_def begin_fn_def Let_def)
  with gather_run_error_free [OF _ assms, of "gatherState root_dir" join] show ?thesis by blast
qed

text \<open>
  C3: the callback of a scan is not called exactly once when an operation fails
  while others are in flight. On this run \<^verbatim>\<open>/w\<close> lists \<^verbatim>\<open>a\<close> and \<^verbatim>\<open>b\<close>; \<^verbatim>\<open>a\<close> is a
  directory; \<^verbatim>\<open>fs.stat\<close> fails on \<^verbatim>\<open>b\<close>, so \<^verbatim>\<open>error\<close> sets \<^verbatim>\<open>expected\<close> to -1
  and calls the callback with the error. Then the listing of \<^verbatim>\<open>a\<close> completes
  with two names: the two calls of \<^verbatim>\<open>begin\<close> raise \<^verbatim>\<open>expected\<close> to 1,
  \<^verbatim>\<open>done\<close> lowers it to 0 and calls the callback a second time, with \<^verbatim>\<open>null\<close> and
  the partial results, while two operations are still in flight.
\<close>

theorem gatherState_calls_back_after_error:
  "snd (gather_run posix_join scan_error_then_listing (gatherState (js ''/w''))) =
     [(ErrObj ENOENT, [\<lparr>path = js ''/w'', mtime = 1\<rparr>, \<lparr>path = js ''/w/a'', mtime = 2\<rparr>]),
      (Null, [\<lparr>path = js ''/w'', mtime = 1\<rparr>, \<lparr>path = js ''/w/a'', mtime = 2\<rparr>])] \<and>
   pending (fst (gather_run posix_join scan_error_then_listing (gatherState (js ''/w'')))) =
     [Stat (js ''/w/a/x''), Stat (js ''/w/a/y'')]"
  by code_simp

section \<open>The coordinator\<close>

text \<open>What each callback of the coordinator leaves as it is, and what it records.\<close>

lemma done_values_append: "done_values (xs @ ys) = done_values xs @ done_values ys"
  by (induction xs rule: done_values.induct) simp_all

lemma fs_step_error_free:
  assumes "\<not> is_error_event e" and "fs_step join e g = (g1, Some (err, rs))"
  shows "err = Null"
proof (cases e)
  case (StatDone p r)
  with assms obtain st where "r = Inr st" by (cases r) auto
  with assms StatDone show ?thesis
    by (auto simp: stat_cb_def Let_def dest!: done_fn_emits split: if_splits)
next
  case (ReaddirDone p r)
  with assms obtain files where "r = Inr files" by (cases r) auto
  with assms ReaddirDone show ?thesis
    by (auto simp: readdir_cb_def dest!: done_fn_emits split: if_splits)
qed

lemma equalsState_arrays: "equalsState (Some a) (Some b) = Inr (equalsState (Some a) (Some b) = Inr True)"
  by simp

lemma unlock_and_callback_simps:
  "rebuild_command (unlock_and_callback r err s) = rebuild_command s"
  "children (unlock_and_callback r err s) = children s"
  "history (unlock_and_callback r err s) = history s @ [Unlocked r, Called r err]"
  by (simp_all add: unlock_and_callback_def)

lemma start_gatherState_simps:
  "rebuild_command (start_gatherState kind r s) = rebuild_command s"
  "children (start_gatherState kind r s) = children s"
  "history (start_gatherState kind r s) = history s"
  "scans (start_gatherState kind r s) = scans s @ [(kind, r, gatherState (root_path s))]"
  by (simp_all add: start_gatherState_def)

lemma rebuild_no_command:
  "no_command s \<Longrightarrow> rebuild r s = start_gatherState Rescan r s"
  by (auto simp: no_command_def rebuild_def rebuild_cb_def)

lemma scan_cb_success:
  "no_command s \<Longrightarrow>
   scan_cb r k Null s =
     (if equalsState (Some (scan_results k s)) (Some (disk_state_value s)) = Inr True
      then unlock_and_callback r Null s else start_gatherState Rescan r s)"
  by (simp add: scan_cb_def rebuild_no_command)

lemma rescan_cb_success:
  "rescan_cb r k Null s = unlock_and_callback r Null (s\<lparr>disk_state := Some k\<rparr>)"
  by (simp add: rescan_cb_def)

lemma static_inv_unlock_and_callback:
  "static_inv s \<Longrightarrow> static_inv (unlock_and_callback r err s)"
  by (simp add: static_inv_def no_command_def unlock_and_callback_simps)

lemma static_inv_start_gatherState:
  "static_inv s \<Longrightarrow> static_inv (start_gatherState kind r s)"
  by (simp add: static_inv_def no_command_def start_gatherState_simps)

lemma static_inv_scan_cb: "static_inv s \<Longrightarrow> static_inv (scan_cb r k err s)"
proof -
  assume i: "static_inv s"
  then have nc: "no_command s" by (simp add: static_inv_def)
  show ?thesis
  proof (cases "truthy err")
    case True
    with i show ?thesis by (simp add: scan_cb_def static_inv_unlock_and_callback)
  next
    case False
    with i nc show ?thesis
      by (simp add: scan_cb_def rebuild_no_command static_inv_unlock_and_callback
          static_inv_start_gatherState)
  qed
qed

lemma static_inv_rescan_cb: "static_inv s \<Longrightarrow> static_inv (rescan_cb r k err s)"
proof -
  assume i: "static_inv s"
  then have "static_inv (s\<lparr>disk_state := Some k\<rparr>)"
    by (simp add: static_inv_def no_command_def)
  with i show ?thesis
    by (simp add: rescan_cb_def static_inv_unlock_and_callback)
qed

lemma static_inv_scans_update:
  "static_inv s \<Longrightarrow> static_inv (s\<lparr>scans := x\<rparr>)"
  by (simp add: static_inv_def no_command_def)

lemma static_inv_step: "static_inv s \<Longrightarrow> static_inv (step join e s)"
proof (cases e)
  case (Request r)
  assume "static_inv s"
  with Request show ?thesis
    by (simp add: static_inv_def no_command_def rebuildIfNecessary_def)
next
  case Tick
  assume i: "static_inv s"
  then have j: "static_inv (s\<lparr>lock := (lock s)\<lparr>ticks := ticks (lock s) - 1\<rparr>\<rparr>)"
    by (simp add: static_inv_def no_command_def)
  show ?thesis
  proof (cases "ticks (lock s) = 0")
    case True
    with i Tick show ?thesis by simp
  next
    case False
    show ?thesis
    proof (cases "lq_dispatch (lock (s\<lparr>lock := (lock s)\<lparr>ticks := ticks (lock s) - 1\<rparr>\<rparr>))")
      case (Inl x)
      with False Tick j show ?thesis
        by (simp add: Let_def static_inv_def no_command_def)
    next
      case (Inr r)
      with False Tick static_inv_start_gatherState [OF j] show ?thesis
        by (simp add: Let_def scan_def)
    qed
  qed
next
  case (Child c ce)
  assume "static_inv s"
  with Child show ?thesis by (simp add: static_inv_def)
next
  case (Fs k fe)
  assume i: "static_inv s"
  show ?thesis
  proof (cases "k < length (scans s)")
    case False
    with i Fs show ?thesis by simp
  next
    case True
    obtain kind r g where sk: "scans s ! k = (kind, r, g)" by (cases "scans s ! k")
    obtain g1 c where st: "fs_step join fe g = (g1, c)" by (cases "fs_step join fe g")
    have j: "static_inv (s\<lparr>scans := (scans s)[k := (kind, r, g1)]\<rparr>)"
      using i by (rule static_inv_scans_update)
    show ?thesis
    proof (cases c)
      case None
      with Fs True sk st j show ?thesis by simp
    next
      case (Some cb)
      obtain err rs where cb: "cb = (err, rs)" by (cases cb)
      show ?thesis
      proof (cases kind)
        case FirstScan
        with Fs True sk st Some cb static_inv_scan_cb [OF j] show ?thesis by simp
      next
        case Rescan
        with Fs True sk st Some cb static_inv_rescan_cb [OF j] show ?thesis by simp
      qed
    qed
  qed
qed

lemma static_inv_run: "static_inv s \<Longrightarrow> static_inv (run join es s)"
  by (induction es arbitrary: s) (simp_all add: static_inv_step del: step.simps)

lemma all_null_step:
  assumes i: "static_inv s" and a: "all_null s" and e: "fs_error_free e"
  shows "all_null (step join e s)"
proof (cases e)
  case (Request r)
  with a show ?thesis by (simp add: all_null_def rebuildIfNecessary_def)
next
  case Tick
  with a show ?thesis
    by (auto simp: all_null_def Let_def scan_def start_gatherState_simps done_values_append
        split: sum.splits)
next
  case (Child c ce)
  with i a show ?thesis by (simp add: static_inv_def)
next
  case (Fs k fe)
  from i have nc: "no_command s" by (simp add: static_inv_def)
  show ?thesis
  proof (cases "k < length (scans s)")
    case False
    with a Fs show ?thesis by simp
  next
    case True
    obtain kind r g where sk: "scans s ! k = (kind, r, g)" by (cases "scans s ! k")
    obtain g1 c where st: "fs_step join fe g = (g1, c)" by (cases "fs_step join fe g")
    define s1 where "s1 = s\<lparr>scans := (scans s)[k := (kind, r, g1)]\<rparr>"
    have h1: "history s1 = history s" and nc1: "no_command s1"
      using nc by (simp_all add: s1_def no_command_def)
    show ?thesis
    proof (cases c)
      case None
      with Fs True sk st a show ?thesis by (simp add: all_null_def)
    next
      case (Some cb)
      obtain err rs where cb: "cb = (err, rs)" by (cases cb)
      from e Fs have "\<not> is_error_event fe" by simp
      with st Some cb have err: "err = Null" using fs_step_error_free by blast
      show ?thesis
      proof (cases kind)
        case FirstScan
        have "step join e s = scan_cb r k Null s1"
          using Fs True sk st Some cb FirstScan err by (simp add: s1_def)
        with a h1 nc1 show ?thesis
          by (simp add: scan_cb_success all_null_def unlock_and_callback_simps
              start_gatherState_simps done_values_append)
      next
        case Rescan
        have "step join e s = rescan_cb r k Null s1"
          using Fs True sk st Some cb Rescan err by (simp add: s1_def)
        with a h1 show ?thesis
          by (simp add: rescan_cb_success all_null_def unlock_and_callback_def done_values_append)
      qed
    qed
  qed
qed

lemma all_null_run:
  "static_inv s \<Longrightarrow> all_null s \<Longrightarrow> list_all fs_error_free es \<Longrightarrow> all_null (run join es s)"
proof (induction es arbitrary: s)
  case Nil
  then show ?case by simp
next
  case (Cons e es)
  from Cons.prems have "static_inv (step join e s)" "all_null (step join e s)" "list_all fs_error_free es"
    by (simp_all add: static_inv_step all_null_step del: step.simps)
  then have "all_null (run join es (step join e s))" by (rule Cons.IH)
  then show ?case by simp
qed

text \<open>
  C9: when the build command is \<^verbatim>\<open>null\<close> or the empty string,
  \<^verbatim>\<open>rebuild\<close> calls its callback with \<^verbatim>\<open>null\<close> at once, which starts the rescan,
  and spawns nothing; in every run of a program built with such a command no
  process is ever spawned; when no operation of the file system fails, every
  value handed to a callback of \<^verbatim>\<open>rebuildIfNecessary\<close> is \<^verbatim>\<open>null\<close>; and, for one
  request, a successful scan either releases the lock and reports \<^verbatim>\<open>null\<close> (the
  state is the cached one) or starts the rescan, and a successful rescan caches
  its results, releases the lock and reports \<^verbatim>\<open>null\<close>.
\<close>

theorem static_site_succeeds:
  assumes "command = None \<or> command = Some []" and "rebuild_command s = command"
  shows "rebuild r s = start_gatherState Rescan r s \<and>
         history (rebuild r s) = history s \<and> children (rebuild r s) = children s \<and>
         filter is_spawn (history (run join es (new_Rebuilder root_dir command))) = [] \<and>
         children (run join es (new_Rebuilder root_dir command)) = [] \<and>
         (list_all fs_error_free es \<longrightarrow>
            set (done_values (history (run join es (new_Rebuilder root_dir command)))) \<subseteq> {Null}) \<and>
         scan_cb r k Null s =
           (if equalsState (Some (scan_results k s)) (Some (disk_state_value s)) = Inr True
            then unlock_and_callback r Null s
            else start_gatherState Rescan r s) \<and>
         rescan_cb r k Null s = unlock_and_callback r Null (s\<lparr>disk_state := Some k\<rparr>)"
proof -
  let ?i = "new_Rebuilder root_dir command"
  from assms have nc: "no_command s" by (simp add: no_command_def)
  from assms have si: "static_inv ?i"
    by (simp add: static_inv_def no_command_def new_Rebuilder_def)
  have an: "all_null ?i" by (simp add: all_null_def new_Rebuilder_def)
  have 1: "rebuild r s = start_gatherState Rescan r s"
    using nc by (rule rebuild_no_command)
  have h1: "history (rebuild r s) = history s" "children (rebuild r s) = children s"
    unfolding 1 by (simp_all add: start_gatherState_simps)
  from si have "static_inv (run join es ?i)" by (rule static_inv_run)
  then have 2: "filter is_spawn (history (run join es ?i)) = []" and 3: "children (run join es ?i) = []"
    by (simp_all add: static_inv_def)
  have 4: "list_all fs_error_free es \<longrightarrow> set (done_values (history (run join es ?i))) \<subseteq> {Null}"
    using all_null_run [OF si an] by (simp add: all_null_def)
  have 5: "scan_cb r k Null s =
           (if equalsState (Some (scan_results k s)) (Some (disk_state_value s)) = Inr True
            then unlock_and_callback r Null s else start_gatherState Rescan r s)"
    using nc by (rule scan_cb_success)
  show ?thesis using 1 h1 2 3 4 5 rescan_cb_success by blast
qed

theorem static_site_succeeds_witness:
  "rebuild_command (new_Rebuilder (js ''/w'') None) = None \<and>
   list_all fs_error_free run_static_site \<and>
   history (run posix_join run_static_site (new_Rebuilder (js ''/w'') None)) =
     [Unlocked 0, Called 0 Null, Unlocked 1, Called 1 Null] \<and>
   filter is_spawn (history (run posix_join run_static_site (new_Rebuilder (js ''/w'') None))) = [] \<and>
   children (run posix_join run_static_site (new_Rebuilder (js ''/w'') None)) = [] \<and>
   set (done_values (history (run posix_join run_static_site (new_Rebuilder (js ''/w'') None)))) \<subseteq> {Null} \<and>
   rebuild 0 (new_Rebuilder (js ''/w'') None) = start_gatherState Rescan 0 (new_Rebuilder (js ''/w'') None)"
proof -
  have c: "rebuild_command (new_Rebuilder (js ''/w'') None) = None" by (simp add: new_Rebuilder_def)
  have f: "list_all fs_error_free run_static_site" by code_simp
  have h: "history (run posix_join run_static_site (new_Rebuilder (js ''/w'') None)) =
     [Unlocked 0, Called 0 Null, Unlocked 1, Called 1 Null]" by code_simp
  have n: "(None :: js_string option) = None \<or> (None :: js_string option) = Some []" by simp
  from static_site_succeeds [OF n c, of 0 posix_join run_static_site "js ''/w''" 0] f
  show ?thesis using c h by simp
qed

text \<open>
  With no build command, the scan of a request succeeds and the state differs
  from the cached one; the rescan then fails, and the request is answered with
  the error of the rescan although its scan succeeded.
\<close>

theorem no_command_rescan_error:
  "rebuild_command (new_Rebuilder (js ''/w'') None) = None \<and>
   snd (gather_run posix_join
          [StatDone (js ''/w'') (dir_stat 1), ReaddirDone (js ''/w'') (Inr [])]
          (gatherState (js ''/w''))) = [(Null, [\<lparr>path = js ''/w'', mtime = 1\<rparr>])] \<and>
   filter is_spawn (history (run posix_join run_rescan_fails (new_Rebuilder (js ''/w'') None))) = [] \<and>
   history (run posix_join run_rescan_fails (new_Rebuilder (js ''/w'') None)) =
     [Unlocked 0, Called 0 (ErrObj ENOENT)] \<and>
   truthy (ErrObj ENOENT)"
  by code_simp

text \<open>
  Every path of the coordinator that calls the callback of a request releases
  the lock just before: in every run, the history pairs each release with the
  call that follows it.
\<close>

lemma release_then_done_append:
  "release_then_done xs \<Longrightarrow> release_then_done (xs @ ys) = release_then_done ys"
  by (induction xs rule: release_then_done.induct) simp_all

lemma rtd_unlock_and_callback:
  "release_then_done (history s) \<Longrightarrow> release_then_done (history (unlock_and_callback r err s))"
  by (simp add: unlock_and_callback_simps release_then_done_append)

lemma rtd_rebuild_cb:
  "release_then_done (history s) \<Longrightarrow> release_then_done (history (rebuild_cb r err s))"
  by (simp add: rebuild_cb_def rtd_unlock_and_callback start_gatherState_simps)

lemma rtd_rebuild:
  "release_then_done (history s) \<Longrightarrow> release_then_done (history (rebuild r s))"
  by (simp add: rebuild_def rtd_rebuild_cb release_then_done_append split: option.splits)

lemma rtd_scan_cb:
  "release_then_done (history s) \<Longrightarrow> release_then_done (history (scan_cb r k err s))"
  by (simp add: scan_cb_def rtd_unlock_and_callback rtd_rebuild)

lemma rtd_rescan_cb:
  "release_then_done (history s) \<Longrightarrow> release_then_done (history (rescan_cb r k err s))"
  by (simp add: rescan_cb_def unlock_and_callback_simps release_then_done_append)

lemma rtd_step:
  assumes i: "release_then_done (history s)"
  shows "release_then_done (history (step join e s))"
proof (cases e)
  case (Request r)
  with i show ?thesis by (simp add: rebuildIfNecessary_def)
next
  case Tick
  with i show ?thesis
    by (auto simp: Let_def scan_def start_gatherState_simps release_then_done_append
        split: sum.splits)
next
  case (Child c ce)
  show ?thesis
  proof (cases "c < length (children s)")
    case False
    with i Child show ?thesis by simp
  next
    case True
    obtain r ch where ck: "children s ! c = (r, ch)" by (cases "children s ! c")
    obtain ch1 cb where st: "child_step ce ch = (ch1, cb)" by (cases "child_step ce ch")
    from i have j: "release_then_done (history (s\<lparr>children := (children s)[c := (r, ch1)]\<rparr>))"
      by simp
    show ?thesis
    proof (cases cb)
      case None
      with Child True ck st i show ?thesis by simp
    next
      case (Some err)
      with Child True ck st rtd_rebuild_cb [OF j] show ?thesis by simp
    qed
  qed
next
  case (Fs k fe)
  show ?thesis
  proof (cases "k < length (scans s)")
    case False
    with i Fs show ?thesis by simp
  next
    case True
    obtain kind r g where sk: "scans s ! k = (kind, r, g)" by (cases "scans s ! k")
    obtain g1 c where st: "fs_step join fe g = (g1, c)" by (cases "fs_step join fe g")
    from i have j: "release_then_done (history (s\<lparr>scans := (scans s)[k := (kind, r, g1)]\<rparr>))"
      by simp
    show ?thesis
    proof (cases c)
      case None
      with Fs True sk st i show ?thesis by simp
    next
      case (Some cb)
      obtain err rs where cb: "cb = (err, rs)" by (cases cb)
      show ?thesis
      proof (cases kind)
        case FirstScan
        with Fs True sk st Some cb rtd_scan_cb [OF j] show ?thesis by simp
      next
        case Rescan
        with Fs True sk st Some cb rtd_rescan_cb [OF j] show ?thesis by simp
      qed
    qed
  qed
qed

lemma release_precedes_done:
  "release_then_done (history (run join es (new_Rebuilder root_dir command)))"
proof -
  have "release_then_done (history s) \<Longrightarrow> release_then_done (history (run join es s))" for s
    by (induction es arbitrary: s) (simp_all add: rtd_step del: step.simps)
  then show ?thesis by (simp add: new_Rebuilder_def)
qed

text \<open>
  C1: the callback of a request is not called exactly once when its scan calls
  back more than once. On this run one request scans \<^verbatim>\<open>/w\<close>, which lists two
  entries; \<^verbatim>\<open>fs.stat\<close> fails on both. \<^verbatim>\<open>gatherState\<close> calls the callback of the
  scan once for each failure, and each call releases the lock and calls the
  callback of the request: two releases and two calls for one request.
\<close>

theorem done_called_twice:
  "history (run posix_join run_two_scan_errors (new_Rebuilder (js ''/w'') None)) =
     [Unlocked 0, Called 0 (ErrObj ENOENT), Unlocked 0, Called 0 (ErrObj ENOENT)]"
  by code_simp

text \<open>
  The second release breaks the contract of the lock. With two more requests
  waiting, the first release starts the second request and the second release
  removes it from the queue and starts the third: the scans of the second and
  of the third request are in flight together.
\<close>

lemma double_release_starts_two_checks:
  "history (run posix_join run_double_release (new_Rebuilder (js ''/w'') None)) =
     [Unlocked 0, Called 0 (ErrObj ENOENT), Unlocked 0, Called 0 (ErrObj ENOENT)] \<and>
   map (\<lambda>(kind, r, g). (kind, r, pending g))
     (scans (run posix_join run_double_release (new_Rebuilder (js ''/w'') None))) =
     [(FirstScan, 0, []), (FirstScan, 1, [Stat (js ''/w'')]), (FirstScan, 2, [Stat (js ''/w'')])] \<and>
   lock_queue (lock (run posix_join run_double_release (new_Rebuilder (js ''/w'') None))) = [2]"
  by code_simp

text \<open>
  The cached state is replaced only by the callback of a rescan, at a call of
  it that reports success.
\<close>

lemma baseline_replaced_by_rescan_only:
  assumes "disk_state (step join e s) \<noteq> disk_state s"
  shows "\<exists>k fe r g g1 rs. e = Fs k fe \<and> k < length (scans s) \<and> scans s ! k = (Rescan, r, g) \<and>
           fs_step join fe g = (g1, Some (Null, rs)) \<and> disk_state (step join e s) = Some k"
proof (cases e)
  case (Request r)
  with assms show ?thesis by (simp add: rebuildIfNecessary_def)
next
  case Tick
  with assms show ?thesis
    by (auto simp: Let_def scan_def start_gatherState_def split: if_splits sum.splits)
next
  case (Child c ce)
  with assms show ?thesis
    by (auto simp: Let_def rebuild_cb_disk_state split: if_splits prod.splits option.splits)
next
  case (Fs k fe)
  show ?thesis
  proof (cases "k < length (scans s)")
    case False
    with assms Fs show ?thesis by simp
  next
    case True
    obtain kind r g where sk: "scans s ! k = (kind, r, g)" by (cases "scans s ! k")
    obtain g1 c where st: "fs_step join fe g = (g1, c)" by (cases "fs_step join fe g")
    define s1 where "s1 = s\<lparr>scans := (scans s)[k := (kind, r, g1)]\<rparr>"
    have ds1: "disk_state s1 = disk_state s" by (simp add: s1_def)
    show ?thesis
    proof (cases c)
      case None
      with assms Fs True sk st show ?thesis by simp
    next
      case (Some cb)
      obtain err rs where cb: "cb = (err, rs)" by (cases cb)
      show ?thesis
      proof (cases kind)
        case FirstScan
        have "step join e s = scan_cb r k err s1"
          using Fs True sk st Some cb FirstScan by (simp add: s1_def)
        with assms ds1 show ?thesis by (simp add: scan_cb_disk_state)
      next
        case Rescan
        have eq: "step join e s = rescan_cb r k err s1"
          using Fs True sk st Some cb Rescan by (simp add: s1_def)
        show ?thesis
        proof (cases err)
          case Null
          with eq ds1 have "disk_state (step join e s) = Some k"
            by (simp add: rescan_cb_cases unlock_and_callback_frame)
          with Fs True sk st Some cb Rescan Null show ?thesis by blast
        next
          case (ErrObj x)
          with eq assms ds1 show ?thesis
            by (simp add: rescan_cb_cases unlock_and_callback_frame)
        next
          case (Str x)
          from st Some cb have "err = Null \<or> (\<exists>y. err = ErrObj y)"
            by (cases fe) (auto simp: stat_cb_def readdir_cb_def Let_def
                dest!: done_fn_emits error_emits split: if_splits sum.splits)
          with Str show ?thesis by simp
        qed
      qed
    qed
  qed
qed

text \<open>
  C2: a build that fails without output does not leave the cached state as it
  was. On this run the build command exits with code 1 and has
  written nothing, so \<^verbatim>\<open>rebuild\<close> hands the empty string to its callback; the
  test \<^verbatim>\<open>if (err)\<close> takes it for success, the rescan runs, and the cached state,
  empty before, is replaced after a build that failed.
\<close>

theorem silent_build_failure_replaces_baseline:
  "disk_state_value (new_Rebuilder (js ''/w'') (Some (js ''false''))) = [] \<and>
   snd (child_step (ChildExit (Some 1) None) spawned) = Some (Str []) \<and>
   disk_state_value (run posix_join run_silent_build_failure
       (new_Rebuilder (js ''/w'') (Some (js ''false'')))) = [\<lparr>path = js ''/w'', mtime = 1\<rparr>]"
  by code_simp

text \<open>
  C10: on the run above, the failed build hands the empty string to the callback
  of \<^verbatim>\<open>rebuild\<close>; the empty string is falsy, and whatever the state the callback
  starts the rescan instead of reporting; before the rescan ends the history
  holds the spawn only and the cached state is still the first one; at the end
  of the rescan the cached state is the array of the rescan, the lock is
  released and the callback of the request receives \<^verbatim>\<open>null\<close>.
\<close>

theorem silent_build_failure_reported_as_success:
  "child_step (ChildExit (Some 1) None) spawned = (spawned\<lparr>signaled := True\<rparr>, Some (Str [])) \<and>
   \<not> truthy (Str []) \<and>
   rebuild_cb r (Str []) s = start_gatherState Rescan r s \<and>
   history (run posix_join (take 5 run_silent_build_failure)
       (new_Rebuilder (js ''/w'') (Some (js ''false'')))) = [Spawned (js ''false'')] \<and>
   scans (run posix_join (take 5 run_silent_build_failure)
       (new_Rebuilder (js ''/w'') (Some (js ''false'')))) ! 1 = (Rescan, 0, gatherState (js ''/w'')) \<and>
   disk_state (run posix_join (take 5 run_silent_build_failure)
       (new_Rebuilder (js ''/w'') (Some (js ''false'')))) = None \<and>
   disk_state (run posix_join run_silent_build_failure
       (new_Rebuilder (js ''/w'') (Some (js ''false'')))) = Some 1 \<and>
   history (run posix_join run_silent_build_failure
       (new_Rebuilder (js ''/w'') (Some (js ''false'')))) =
     [Spawned (js ''false''), Unlocked 0, Called 0 Null]"
proof -
  have g: "rebuild_cb r (Str []) s = start_gatherState Rescan r s"
    by (simp add: rebuild_cb_def)
  have c: "child_step (ChildExit (Some 1) None) spawned = (spawned\<lparr>signaled := True\<rparr>, Some (Str []))"
    by code_simp
  have h5: "history (run posix_join (take 5 run_silent_build_failure)
       (new_Rebuilder (js ''/w'') (Some (js ''false'')))) = [Spawned (js ''false'')]"
    by code_simp
  have s5: "scans (run posix_join (take 5 run_silent_build_failure)
       (new_Rebuilder (js ''/w'') (Some (js ''false'')))) ! 1 = (Rescan, 0, gatherState (js ''/w''))"
    by code_simp
  have d5: "disk_state (run posix_join (take 5 run_silent_build_failure)
       (new_Rebuilder (js ''/w'') (Some (js ''false'')))) = None"
    by code_simp
  have d7: "disk_state (run posix_join run_silent_build_failure
       (new_Rebuilder (js ''/w'') (Some (js ''false'')))) = Some 1"
    by code_simp
  have h7: "history (run posix_join run_silent_build_failure
       (new_Rebuilder (js ''/w'') (Some (js ''false'')))) =
     [Spawned (js ''false''), Unlocked 0, Called 0 Null]"
    by code_simp
  show ?thesis using g c h5 s5 d5 d7 h7 by simp
qed

end
